theory Spec2Isabelle
  imports Main "HOL-Library.Word" "HOL-Library.Multiset"
begin

unbundle bit_operations_syntax

section \<open>Data model\<close>

text \<open>
  \<^verbatim>\<open>addr.IA\<close> is a struct of an ISD number (\<^verbatim>\<open>uint16\<close>) and an AS number
  (\<^verbatim>\<open>uint64\<close>); the Go fields are called \<^verbatim>\<open>I\<close> and \<^verbatim>\<open>A\<close>.
\<close>

record IA =
  IA_I :: "16 word"
  IA_A :: "64 word"

definition IsZero :: "IA \<Rightarrow> bool" where
  "IsZero ia = (IA_I ia = 0 \<and> IA_A ia = 0)"


definition zeroIA :: IA where
  "zeroIA = \<lparr>IA_I = 0, IA_A = 0\<rparr>"

text \<open>
  The PQA extension of an AS entry. \<^verbatim>\<open>Quality\<close> and \<^verbatim>\<open>Direction\<close> are types of the
  extension package, kept abstract as \<open>'q\<close> and \<open>'d\<close>; the uniquifier is an integer that
  \<^verbatim>\<open>InsertBeacon\<close> converts with \<^verbatim>\<open>uint32(...)\<close>.
\<close>

record ('q, 'd) Extension =
  ext_Quality :: 'q
  ext_Direction :: 'd
  ext_Uniquifier :: int

text \<open>
  An AS entry, with the fields the code reads: \<^verbatim>\<open>Local\<close>,
  \<^verbatim>\<open>HopEntry.HopField.ConsIngress\<close> and \<^verbatim>\<open>Extensions.PqaExtension\<close> (a pointer,
  \<open>None\<close> for \<^verbatim>\<open>nil\<close>).
\<close>

record ('q, 'd) ASEntry =
  Local :: IA
  ConsIngress :: "16 word"
  PqaExtension :: "('q, 'd) Extension option"

text \<open>
  A path segment: the origination timestamp \<^verbatim>\<open>Info.Timestamp\<close> (a \<^verbatim>\<open>time.Time\<close>, here
  nanoseconds since the Unix epoch) and the AS entries.
\<close>

record ('q, 'd) PathSegment =
  Timestamp :: int
  ASEntries :: "('q, 'd) ASEntry list"

text \<open>
  A beacon. \<^verbatim>\<open>Segment\<close> is a pointer (\<open>None\<close> for \<^verbatim>\<open>nil\<close>); \<^verbatim>\<open>EgIfId\<close> is the field the
  propagation engine assigns before extending.
\<close>

record ('q, 'd) Beacon =
  Segment :: "('q, 'd) PathSegment option"
  InIfId :: "16 word"
  EgIfId :: "16 word"

section \<open>Beacon entity: link diversity\<close>





section \<open>Interface grouping: neighbour enumeration\<close>

text \<open>
  What the code reads of an interface: \<^verbatim>\<open>TopoInfo().ID\<close> and \<^verbatim>\<open>TopoInfo().IA\<close>, the
  interface identifier and the AS at the remote end.
\<close>

record Interface =
  TopoInfo_ID :: "16 word"
  TopoInfo_IA :: IA

text \<open>
  The first loop of \<^verbatim>\<open>getNeighbouringASs\<close> stores every remote AS as a key of a Go map.
  The map is kept as the list of its distinct keys; the order in which Go ranges over a
  map is unspecified, so results below speak of the number of occurrences only.
\<close>

fun set_loop :: "IA list \<Rightarrow> Interface list \<Rightarrow> IA list" where
  "set_loop keys [] = keys"
| "set_loop keys (neigh # rest) =
     set_loop (if TopoInfo_IA neigh \<in> set keys then keys else keys @ [TopoInfo_IA neigh]) rest"

text \<open>The second loop appends every key to \<^verbatim>\<open>res\<close>.\<close>

fun append_loop :: "IA list \<Rightarrow> IA list \<Rightarrow> IA list" where
  "append_loop res [] = res"
| "append_loop res (neigh # rest) = append_loop (res @ [neigh]) rest"

text \<open>
  \<^verbatim>\<open>make([]addr.IA, len(set))\<close> is a slice of \<^verbatim>\<open>len(set)\<close> zero values, and the loop
  appends behind them.
\<close>

definition getNeighbouringASs :: "Interface list \<Rightarrow> IA list" where
  "getNeighbouringASs allInterfaces =
     (let keys = set_loop [] allInterfaces;
          res = replicate (length keys) zeroIA
      in append_loop res keys)"

section \<open>Errors and outcomes\<close>

text \<open>
  Error values. \<open>Opaque\<close> is an error produced by a collaborator (the SQL driver, the
  segment codec, the extender); the other constructors are the wrappers the code applies
  (\<^verbatim>\<open>db.NewReadError\<close>, \<^verbatim>\<open>db.NewWriteError\<close>, \<^verbatim>\<open>db.NewDataError\<close>,
  \<^verbatim>\<open>db.NewInputDataError\<close>, \<^verbatim>\<open>serrors.New\<close>, \<^verbatim>\<open>serrors.WrapStr\<close>), with their
  message, cause and context.
\<close>

datatype ('q, 'd) ctxval =
    CtxIfid "16 word"
  | CtxBytes "8 word list"
  | CtxInt int
  | CtxSeg "('q, 'd) PathSegment option"

datatype ('q, 'd) error =
    Opaque string
  | ReadError string "('q, 'd) error"
  | WriteError string "('q, 'd) error"
  | DataError string "('q, 'd) error"
  | InputDataError string "('q, 'd) error"
  | New string "(string \<times> ('q, 'd) ctxval) list"
  | WrapStr string "('q, 'd) error" "(string \<times> ('q, 'd) ctxval) list"

text \<open>A call either panics (nil dereference, index out of range) or returns.\<close>

datatype 'a outcome = Panic | Return 'a

section \<open>Beacon store\<close>

text \<open>
  One row of table \<^verbatim>\<open>Beacons\<close>. \<^verbatim>\<open>InfoTime\<close> and \<^verbatim>\<open>ExpirationTime\<close> are Unix seconds,
  \<^verbatim>\<open>LastUpdated\<close> Unix nanoseconds; column \<^verbatim>\<open>Beacon\<close>, the packed segment, is
  \<open>Packed\<close> here.
\<close>

record Row =
  RowID :: int
  SegID :: "8 word list"
  FullID :: "8 word list"
  StartIsd :: "16 word"
  StartAs :: "64 word"
  InIntfID :: "16 word"
  HopsLength :: int
  InfoTime :: int
  ExpirationTime :: int
  LastUpdated :: int
  Usage :: "64 word"
  Packed :: "8 word list"

text \<open>
  The store: the rows of the table, and the answers the SQL driver gives to the coming
  calls (\<open>None\<close>: the call succeeds; \<open>Some e\<close>: it fails with \<open>e\<close>; no answer left:
  it succeeds).
\<close>

record ('q, 'd) Beacons =
  rows :: "Row list"
  driver :: "('q, 'd) error option list"

definition driver_call :: "('q, 'd) Beacons \<Rightarrow> ('q, 'd) error option \<times> ('q, 'd) Beacons" where
  "driver_call db =
     (case driver db of [] \<Rightarrow> (None, db) | a # rest \<Rightarrow> (a, db\<lparr>driver := rest\<rparr>))"

text \<open>
  The functions of the segment package and the codec that the store calls, and the clock.
  They are not part of the store and are taken as parameters: \<^verbatim>\<open>Segment.ID()\<close>,
  \<^verbatim>\<open>Segment.FullID()\<close>, \<^verbatim>\<open>Segment.MaxExpiry()\<close> (nanoseconds), \<^verbatim>\<open>beacon.PackBeacon\<close>,
  \<^verbatim>\<open>beacon.UnpackBeacon\<close> and \<^verbatim>\<open>time.Now()\<close> (nanoseconds).
\<close>

record ('q, 'd) Env =
  seg_ID :: "('q, 'd) PathSegment \<Rightarrow> 8 word list"
  seg_FullID :: "('q, 'd) PathSegment \<Rightarrow> 8 word list"
  MaxExpiry :: "('q, 'd) PathSegment \<Rightarrow> int"
  PackBeacon :: "('q, 'd) PathSegment \<Rightarrow> ('q, 'd) error + 8 word list"
  UnpackBeacon :: "8 word list \<Rightarrow> ('q, 'd) error + ('q, 'd) PathSegment"
  Now :: int

text \<open>\<^verbatim>\<open>Time.Unix()\<close>: whole seconds, rounded down; \<^verbatim>\<open>time.Unix(sec, 0)\<close> the other way.\<close>

definition Unix :: "int \<Rightarrow> int" where
  "Unix t = t div 1000000000"

definition time_Unix :: "int \<Rightarrow> int" where
  "time_Unix sec = sec * 1000000000"

text \<open>
  Modelled from the spec: \<^verbatim>\<open>FirstIA\<close> of the segment package is not among the sources.
  The origin AS of a segment is the local AS of its first entry; indexing an empty slice
  panics.
\<close>

definition FirstIA :: "('q, 'd) PathSegment \<Rightarrow> IA outcome" where
  "FirstIA s = (case ASEntries s of [] \<Rightarrow> Panic | e # _ \<Rightarrow> Return (Local e))"

record beaconMeta =
  meta_RowID :: int
  meta_InfoTime :: int
  meta_LastUpdated :: int

record InsertStats =
  Inserted :: int
  Updated :: int

text \<open>
  \<^verbatim>\<open>getBeaconMeta\<close>: \<^verbatim>\<open>QueryRow\<close> yields the first row with the segment identity;
  \<^verbatim>\<open>sql.ErrNoRows\<close> is the answer \<open>(None, None)\<close>.
\<close>

definition getBeaconMeta ::
  "('q, 'd) Beacons \<Rightarrow> 8 word list \<Rightarrow>
     ('q, 'd) Beacons \<times> beaconMeta option \<times> ('q, 'd) error option" where
  "getBeaconMeta db segID =
     (case driver_call db of
        (Some err, db1) \<Rightarrow> (db1, None, Some (ReadError ''Failed to lookup beacon'' err))
      | (None, db1) \<Rightarrow>
          (case find (\<lambda>r. SegID r = segID) (rows db1) of
             None \<Rightarrow> (db1, None, None)
           | Some r \<Rightarrow>
               (db1,
                Some \<lparr>meta_RowID = RowID r, meta_InfoTime = time_Unix (InfoTime r),
                      meta_LastUpdated = LastUpdated r\<rparr>,
                None)))"

text \<open>The \<^verbatim>\<open>UPDATE ... WHERE RowID=?\<close> of \<^verbatim>\<open>updateExistingBeacon\<close>, on one row.\<close>

definition update_row ::
  "('q, 'd) Env \<Rightarrow> ('q, 'd) Beacon \<Rightarrow> ('q, 'd) PathSegment \<Rightarrow> 64 word \<Rightarrow> 8 word list \<Rightarrow>
     int \<Rightarrow> Row \<Rightarrow> Row" where
  "update_row env b s usage packedSeg now r =
     r\<lparr>FullID := seg_FullID env s, InIntfID := InIfId b,
       HopsLength := int (length (ASEntries s)), InfoTime := Unix (Timestamp s),
       ExpirationTime := Unix (MaxExpiry env s), LastUpdated := now,
       Usage := usage, Packed := packedSeg\<rparr>"

definition updateExistingBeacon ::
  "('q, 'd) Env \<Rightarrow> ('q, 'd) Beacons \<Rightarrow> ('q, 'd) Beacon \<Rightarrow> ('q, 'd) PathSegment \<Rightarrow> 64 word \<Rightarrow>
     int \<Rightarrow> int \<Rightarrow> ('q, 'd) Beacons \<times> ('q, 'd) error option" where
  "updateExistingBeacon env db b s usage rowID now =
     (case PackBeacon env s of
        Inl err \<Rightarrow> (db, Some err)
      | Inr packedSeg \<Rightarrow>
          (case driver_call db of
             (Some err, db1) \<Rightarrow> (db1, Some (WriteError ''update segment'' err))
           | (None, db1) \<Rightarrow>
               (db1\<lparr>rows := map (\<lambda>r. if RowID r = rowID
                                      then update_row env b s usage packedSeg now r else r)
                               (rows db1)\<rparr>,
                None)))"

text \<open>
  The row identifier SQLite gives to an inserted row: one more than the largest in the
  table, 1 in an empty table.
\<close>

definition next_RowID :: "Row list \<Rightarrow> int" where
  "next_RowID rs = (if rs = [] then 1 else Max (set (map RowID rs)) + 1)"

definition insertNewBeacon ::
  "('q, 'd) Env \<Rightarrow> ('q, 'd) Beacons \<Rightarrow> ('q, 'd) Beacon \<Rightarrow> ('q, 'd) PathSegment \<Rightarrow> 64 word \<Rightarrow>
     int \<Rightarrow> (('q, 'd) Beacons \<times> ('q, 'd) error option) outcome" where
  "insertNewBeacon env db b s usage now =
     (case PackBeacon env s of
        Inl err \<Rightarrow> Return (db, Some (InputDataError ''pack segment'' err))
      | Inr packed \<Rightarrow>
          (case FirstIA s of
             Panic \<Rightarrow> Panic
           | Return start \<Rightarrow>
               (case driver_call db of
                  (Some err, db1) \<Rightarrow> Return (db1, Some (WriteError ''insert beacon'' err))
                | (None, db1) \<Rightarrow>
                    Return
                      (db1\<lparr>rows := rows db1 @
                         [\<lparr>RowID = next_RowID (rows db1), SegID = seg_ID env s,
                           FullID = seg_FullID env s, StartIsd = IA_I start,
                           StartAs = IA_A start, InIntfID = InIfId b,
                           HopsLength = int (length (ASEntries s)),
                           InfoTime = Unix (Timestamp s),
                           ExpirationTime = Unix (MaxExpiry env s), LastUpdated = now,
                           Usage = usage, Packed = packed\<rparr>]\<rparr>,
                       None))))"

text \<open>
  Modelled from the spec: \<^verbatim>\<open>db.DoInTx\<close> is not among the sources. The insert runs inside
  an atomic transaction: opening it can fail, an error of the action rolls it back, and a
  failed commit leaves the table as it was.
\<close>

definition DoInTx ::
  "('q, 'd) Beacons \<Rightarrow>
     (('q, 'd) Beacons \<Rightarrow> (('q, 'd) Beacons \<times> ('q, 'd) error option) outcome) \<Rightarrow>
     (('q, 'd) Beacons \<times> ('q, 'd) error option) outcome" where
  "DoInTx db action =
     (case driver_call db of
        (Some err, db1) \<Rightarrow> Return (db1, Some (WrapStr ''Failed to create transaction'' err []))
      | (None, db1) \<Rightarrow>
          (case action db1 of
             Panic \<Rightarrow> Panic
           | Return (db2, Some err) \<Rightarrow> Return (db2\<lparr>rows := rows db1\<rparr>, Some err)
           | Return (db2, None) \<Rightarrow>
               (case driver_call db2 of
                  (Some err, db3) \<Rightarrow>
                    Return (db3\<lparr>rows := rows db1\<rparr>,
                            Some (WrapStr ''Failed to commit transaction'' err []))
                | (None, db3) \<Rightarrow> Return (db3, None))))"

text \<open>
  \<^verbatim>\<open>executor.InsertBeacon\<close>. \<^verbatim>\<open>b.Segment.ID()\<close> dereferences the segment pointer and
  panics on \<^verbatim>\<open>nil\<close>.
\<close>

definition executor_InsertBeacon ::
  "('q, 'd) Env \<Rightarrow> ('q, 'd) Beacons \<Rightarrow> ('q, 'd) Beacon \<Rightarrow> 64 word \<Rightarrow>
     (('q, 'd) Beacons \<times> InsertStats \<times> ('q, 'd) error option) outcome" where
  "executor_InsertBeacon env db b usage =
     (let ret = \<lparr>Inserted = 0, Updated = 0\<rparr> in
      case Segment b of
        None \<Rightarrow> Panic
      | Some s \<Rightarrow>
          (let segID = seg_ID env s in
           case getBeaconMeta db segID of
             (db1, _, Some err) \<Rightarrow> Return (db1, ret, Some err)
           | (db1, Some meta, None) \<Rightarrow>
               if Timestamp s > meta_InfoTime meta then
                 (case updateExistingBeacon env db1 b s usage (meta_RowID meta) (Now env) of
                    (db2, Some err) \<Rightarrow> Return (db2, ret, Some err)
                  | (db2, None) \<Rightarrow> Return (db2, ret\<lparr>Updated := 1\<rparr>, None))
               else Return (db1, ret, None)
           | (db1, None, None) \<Rightarrow>
               (case DoInTx db1 (\<lambda>tx. insertNewBeacon env tx b s usage (Now env)) of
                  Panic \<Rightarrow> Panic
                | Return (db2, Some err) \<Rightarrow> Return (db2, ret, Some err)
                | Return (db2, None) \<Rightarrow> Return (db2, ret\<lparr>Inserted := 1\<rparr>, None))))"

text \<open>\<^verbatim>\<open>getBeaconID\<close>: the row identifier of the record with the beacon's segment identity.\<close>

definition getBeaconID ::
  "('q, 'd) Env \<Rightarrow> ('q, 'd) Beacons \<Rightarrow> ('q, 'd) Beacon \<Rightarrow>
     (('q, 'd) Beacons \<times> int \<times> ('q, 'd) error option) outcome" where
  "getBeaconID env db beacon =
     (case Segment beacon of
        None \<Rightarrow> Panic
      | Some s \<Rightarrow>
          (let segID = seg_ID env s in
           case getBeaconMeta db segID of
             (db1, _, Some err) \<Rightarrow> Return (db1, - 1, Some err)
           | (db1, None, None) \<Rightarrow>
               Return (db1, - 1, Some (New ''beacon not found'' [(''segID'', CtxBytes segID)]))
           | (db1, Some meta, None) \<Rightarrow> Return (db1, meta_RowID meta, None)))"

text \<open>
  Error messages of package \<^verbatim>\<open>beacon\<close> (\<^verbatim>\<open>beacon.ErrReadingRows\<close>, \<^verbatim>\<open>beacon.ErrParse\<close>).
\<close>

definition ErrReadingRows :: string where
  "ErrReadingRows = ''Failed to read rows''"

definition ErrParse :: string where
  "ErrParse = ''Failed to parse entry''"

text \<open>
  The query of \<^verbatim>\<open>CandidateBeacons\<close>:
  \<^verbatim>\<open>WHERE (b.Usage & ?1) == ?1 [AND StartIsd == ?4 AND StartAs == ?5]
  ORDER BY b.HopsLength ASC LIMIT ?2\<close>.
  The third parameter, the current time, occurs nowhere in the query text. SQL leaves the
  order of rows with equal \<^verbatim>\<open>HopsLength\<close> open (here: table order); a negative
  \<^verbatim>\<open>LIMIT\<close> is no limit in SQLite.
\<close>

definition sql_limit :: "int \<Rightarrow> 'a list \<Rightarrow> 'a list" where
  "sql_limit n xs = (if n < 0 then xs else take (nat n) xs)"

definition select_candidates :: "Row list \<Rightarrow> 64 word \<Rightarrow> int \<Rightarrow> int \<Rightarrow> IA \<Rightarrow> Row list" where
  "select_candidates tbl usage setSize nowSecs src =
     sql_limit setSize
       (sort_key HopsLength
          (filter (\<lambda>b. (Usage b AND usage) = usage \<and>
                        (if \<not> IsZero src then StartIsd b = IA_I src \<and> StartAs b = IA_A src
                         else True))
             tbl))"

text \<open>
  The loop over the result rows: \<^verbatim>\<open>rows.Next()\<close>, \<^verbatim>\<open>rows.Scan\<close> and
  \<^verbatim>\<open>beacon.UnpackBeacon\<close> for each row, \<^verbatim>\<open>rows.Err()\<close> at the end. A failing
  \<^verbatim>\<open>rows.Next()\<close> ends the loop, and \<^verbatim>\<open>rows.Err()\<close> then reports its error.
\<close>

fun scan_loop ::
  "('q, 'd) Env \<Rightarrow> ('q, 'd) Beacons \<Rightarrow> ('q, 'd) Beacon list \<Rightarrow> Row list \<Rightarrow>
     ('q, 'd) Beacons \<times> ('q, 'd) Beacon list \<times> ('q, 'd) error option" where
  "scan_loop env db beacons [] =
     (case driver_call db of
        (Some err, db1) \<Rightarrow> (db1, [], Some err)
      | (None, db1) \<Rightarrow> (db1, beacons, None))"
| "scan_loop env db beacons (r # rest) =
     (case driver_call db of
        (Some err, db1) \<Rightarrow> (db1, [], Some err)
      | (None, db1) \<Rightarrow>
          (case driver_call db1 of
             (Some err, db2) \<Rightarrow> (db2, [], Some (ReadError ErrReadingRows err))
           | (None, db2) \<Rightarrow>
               (case UnpackBeacon env (Packed r) of
                  Inl err \<Rightarrow> (db2, [], Some (DataError ErrParse err))
                | Inr s \<Rightarrow>
                    scan_loop env db2
                      (beacons @ [\<lparr>Segment = Some s, InIfId = InIntfID r, EgIfId = 0\<rparr>])
                      rest)))"

text \<open>
  \<^verbatim>\<open>CandidateBeacons\<close>. \<^verbatim>\<open>make([]beacon.Beacon, 0, setSize)\<close> panics when \<^verbatim>\<open>setSize\<close>
  is negative.
\<close>

definition CandidateBeacons ::
  "('q, 'd) Env \<Rightarrow> ('q, 'd) Beacons \<Rightarrow> int \<Rightarrow> 64 word \<Rightarrow> IA \<Rightarrow>
     (('q, 'd) Beacons \<times> ('q, 'd) Beacon list \<times> ('q, 'd) error option) outcome" where
  "CandidateBeacons env db setSize usage src =
     (case driver_call db of
        (Some err, db1) \<Rightarrow> Return (db1, [], Some (ReadError ''Error selecting beacons'' err))
      | (None, db1) \<Rightarrow>
          if setSize < 0 then Panic
          else Return (scan_loop env db1 []
                         (select_candidates (rows db1) usage setSize (Unix (Now env)) src)))"

text \<open>
  \<^verbatim>\<open>GetBeaconById\<close>: when \<^verbatim>\<open>rows.Next()\<close> is false, whether for lack of a row or for
  an error, the answer is "no beacon found".
\<close>

definition GetBeaconById ::
  "('q, 'd) Env \<Rightarrow> ('q, 'd) Beacons \<Rightarrow> int \<Rightarrow>
     ('q, 'd) Beacons \<times> ('q, 'd) Beacon option \<times> ('q, 'd) error option" where
  "GetBeaconById env db rowID =
     (case driver_call db of
        (Some err, db1) \<Rightarrow> (db1, None, Some err)
      | (None, db1) \<Rightarrow>
          (case driver_call db1 of
             (Some err, db2) \<Rightarrow>
               (db2, None, Some (New ''no beacon found with id'' [(''id'', CtxInt rowID)]))
           | (None, db2) \<Rightarrow>
               (case find (\<lambda>b. RowID b = rowID) (rows db2) of
                  None \<Rightarrow>
                    (db2, None, Some (New ''no beacon found with id'' [(''id'', CtxInt rowID)]))
                | Some r \<Rightarrow>
                    (case driver_call db2 of
                       (Some err, db3) \<Rightarrow> (db3, None, Some err)
                     | (None, db3) \<Rightarrow>
                         (case UnpackBeacon env (Packed r) of
                            Inl err \<Rightarrow> (db3, None, Some (DataError ErrParse err))
                          | Inr s \<Rightarrow>
                              (db3,
                               Some \<lparr>Segment = Some s, InIfId = InIntfID r, EgIfId = 0\<rparr>,
                               None))))))"

text \<open>
  Modelled from the spec: \<^verbatim>\<open>GetBeaconsById\<close> is not among the sources. It fetches the
  beacons of the given storage identities, in the order of the identities; an identity
  without a record is treated as absent, never as an error; a storage read failure or a
  record that does not decode yields no beacons and an error.
\<close>

fun GetBeaconsById_loop ::
  "('q, 'd) Env \<Rightarrow> ('q, 'd) Beacons \<Rightarrow> ('q, 'd) Beacon list \<Rightarrow> int list \<Rightarrow>
     ('q, 'd) Beacons \<times> ('q, 'd) Beacon list \<times> ('q, 'd) error option" where
  "GetBeaconsById_loop env db beacons [] = (db, beacons, None)"
| "GetBeaconsById_loop env db beacons (rowID # ids) =
     (case driver_call db of
        (Some err, db1) \<Rightarrow> (db1, [], Some (ReadError ''Error selecting beacons'' err))
      | (None, db1) \<Rightarrow>
          (case find (\<lambda>b. RowID b = rowID) (rows db1) of
             None \<Rightarrow> GetBeaconsById_loop env db1 beacons ids
           | Some r \<Rightarrow>
               (case UnpackBeacon env (Packed r) of
                  Inl err \<Rightarrow> (db1, [], Some (DataError ErrParse err))
                | Inr s \<Rightarrow>
                    GetBeaconsById_loop env db1
                      (beacons @ [\<lparr>Segment = Some s, InIfId = InIntfID r, EgIfId = 0\<rparr>])
                      ids)))"

definition GetBeaconsById ::
  "('q, 'd) Env \<Rightarrow> ('q, 'd) Beacons \<Rightarrow> int list \<Rightarrow>
     ('q, 'd) Beacons \<times> ('q, 'd) Beacon list \<times> ('q, 'd) error option" where
  "GetBeaconsById env db ids = GetBeaconsById_loop env db [] ids"

section \<open>Target index\<close>

record ('q, 'd) Target =
  Quality :: 'q
  Direction :: 'd
  Uniquifier :: "32 word"
  Target_IA :: IA

text \<open>
  Modelled from the spec: the target store (package \<^verbatim>\<open>targetstore\<close>) is not among the
  sources. It holds associations (storage identity, target). \<^verbatim>\<open>AssociateBeacon\<close>
  registers a pair, associations accumulate, and registering a pair again changes
  nothing. \<^verbatim>\<open>GetBeaconIdsForTarget\<close> returns the identities associated with exactly
  this target, and an empty result when there are none.
\<close>

type_synonym ('q, 'd) Targets = "(int \<times> ('q, 'd) Target) list"

definition AssociateBeacon ::
  "('q, 'd) Targets \<Rightarrow> int \<Rightarrow> ('q, 'd) Target \<Rightarrow> ('q, 'd) Targets" where
  "AssociateBeacon ts beaconID target =
     (if (beaconID, target) \<in> set ts then ts else ts @ [(beaconID, target)])"

definition GetBeaconIdsForTarget :: "('q, 'd) Targets \<Rightarrow> ('q, 'd) Target \<Rightarrow> int list" where
  "GetBeaconIdsForTarget ts target = map fst (filter (\<lambda>p. snd p = target) ts)"

section \<open>PQA backend\<close>

record ('q, 'd) PqaMemoryBackend =
  beaconDB :: "('q, 'd) Beacons"
  targetDB :: "('q, 'd) Targets"

text \<open>
  \<^verbatim>\<open>PqaMemoryBackend.InsertBeacon\<close>. After the insert into the beacon store it reads
  \<^verbatim>\<open>bcn.Segment.ASEntries[0]\<close>, which panics on a segment without entries.
\<close>

definition PqaMemoryBackend_InsertBeacon ::
  "('q, 'd) Env \<Rightarrow> ('q, 'd) PqaMemoryBackend \<Rightarrow> ('q, 'd) Beacon \<Rightarrow> 64 word \<Rightarrow>
     (('q, 'd) PqaMemoryBackend \<times> InsertStats \<times> ('q, 'd) error option) outcome" where
  "PqaMemoryBackend_InsertBeacon env b bcn usage =
     (case executor_InsertBeacon env (beaconDB b) bcn usage of
        Panic \<Rightarrow> Panic
      | Return (db1, stats, Some err) \<Rightarrow> Return (b\<lparr>beaconDB := db1\<rparr>, stats, Some err)
      | Return (db1, stats, None) \<Rightarrow>
          (case Segment bcn of
             None \<Rightarrow> Panic
           | Some s \<Rightarrow>
               (case ASEntries s of
                  [] \<Rightarrow> Panic
                | asEntry0 # _ \<Rightarrow>
                    (case PqaExtension asEntry0 of
                       None \<Rightarrow> Return (b\<lparr>beaconDB := db1\<rparr>, stats, None)
                     | Some pqaExtension0 \<Rightarrow>
                         (case FirstIA s of
                            Panic \<Rightarrow> Panic
                          | Return ia \<Rightarrow>
                              (let target = \<lparr>Quality = ext_Quality pqaExtension0,
                                             Direction = ext_Direction pqaExtension0,
                                             Uniquifier = word_of_int (ext_Uniquifier pqaExtension0),
                                             Target_IA = ia\<rparr> in
                               case getBeaconID env db1 bcn of
                                 Panic \<Rightarrow> Panic
                               | Return (db2, beaconID, Some err) \<Rightarrow>
                                   Return (b\<lparr>beaconDB := db2\<rparr>, stats, Some err)
                               | Return (db2, beaconID, None) \<Rightarrow>
                                   Return
                                     (\<lparr>beaconDB = db2,
                                       targetDB = AssociateBeacon (targetDB b) beaconID target\<rparr>,
                                      stats, None)))))))"

section \<open>Auxiliary definitions for the statements\<close>


text \<open>The beacon that \<^verbatim>\<open>CandidateBeacons\<close> builds from a row; \<open>None\<close> when it does not decode.\<close>

definition row_beacon :: "('q, 'd) Env \<Rightarrow> Row \<Rightarrow> ('q, 'd) Beacon option" where
  "row_beacon env r =
     (case UnpackBeacon env (Packed r) of
        Inl err \<Rightarrow> None
      | Inr s \<Rightarrow> Some \<lparr>Segment = Some s, InIfId = InIntfID r, EgIfId = 0\<rparr>)"

section \<open>Go's \<^verbatim>\<open>sort.Slice\<close>\<close>

text \<open>
  Both rankings call \<^verbatim>\<open>sort.Slice\<close> of the Go standard library. This is its algorithm
  as shipped up to Go 1.18 (\<^verbatim>\<open>quickSort_func\<close> and its helpers in package \<^verbatim>\<open>sort\<close>):
  quicksort with a median-of-three (or ninther) pivot, heapsort once the recursion depth
  is used up, and for at most 12 elements one Shell pass with gap 6 followed by insertion
  sort. The slice is a list, \<^verbatim>\<open>data.Less(i, j)\<close> is \<open>lt (xs ! i) (xs ! j)\<close> and
  \<^verbatim>\<open>data.Swap(i, j)\<close> is \<open>swap xs i j\<close>. All index expressions stay within the slice
  and no subtraction goes below zero, so the indices are natural numbers.
\<close>

definition swap :: "'a list \<Rightarrow> nat \<Rightarrow> nat \<Rightarrow> 'a list" where
  "swap xs i j = xs[i := xs ! j, j := xs ! i]"

text \<open>\<^verbatim>\<open>insertionSort_func\<close>: the inner loop moves element \<open>j\<close> down, the outer loop runs
  over \<open>i\<close>.\<close>

function insert_loop :: "('a \<Rightarrow> 'a \<Rightarrow> bool) \<Rightarrow> 'a list \<Rightarrow> nat \<Rightarrow> nat \<Rightarrow> 'a list" where
  "insert_loop lt xs a j =
     (if j > a \<and> lt (xs ! j) (xs ! (j - 1)) then insert_loop lt (swap xs j (j - 1)) a (j - 1)
      else xs)"
  by pat_completeness auto
termination
  by (relation "measure (\<lambda>(lt, xs, a, j). j)") auto

declare insert_loop.simps [simp del]

function insertionSort_loop ::
  "('a \<Rightarrow> 'a \<Rightarrow> bool) \<Rightarrow> 'a list \<Rightarrow> nat \<Rightarrow> nat \<Rightarrow> nat \<Rightarrow> 'a list" where
  "insertionSort_loop lt xs a b i =
     (if i < b then insertionSort_loop lt (insert_loop lt xs a i) a b (i + 1) else xs)"
  by pat_completeness auto
termination
  by (relation "measure (\<lambda>(lt, xs, a, b, i). b - i)") auto

declare insertionSort_loop.simps [simp del]

definition insertionSort_func :: "('a \<Rightarrow> 'a \<Rightarrow> bool) \<Rightarrow> 'a list \<Rightarrow> nat \<Rightarrow> nat \<Rightarrow> 'a list" where
  "insertionSort_func lt xs a b = insertionSort_loop lt xs a b (a + 1)"

text \<open>\<^verbatim>\<open>siftDown_func\<close> and \<^verbatim>\<open>heapSort_func\<close>; the two loops of the latter count
  \<open>i\<close> down to 0.\<close>

function siftDown_loop ::
  "('a \<Rightarrow> 'a \<Rightarrow> bool) \<Rightarrow> 'a list \<Rightarrow> nat \<Rightarrow> nat \<Rightarrow> nat \<Rightarrow> 'a list" where
  "siftDown_loop lt xs hi first root =
     (let child = 2 * root + 1 in
      if child \<ge> hi then xs
      else
        let child = (if child + 1 < hi \<and> lt (xs ! (first + child)) (xs ! (first + child + 1))
                     then child + 1 else child) in
        if \<not> lt (xs ! (first + root)) (xs ! (first + child)) then xs
        else siftDown_loop lt (swap xs (first + root) (first + child)) hi first child)"
  by pat_completeness auto
termination
  apply (relation "measure (\<lambda>(lt, xs, hi, first, root). hi - root)")
   apply simp
  apply (simp split: if_splits)
  apply linarith
  done

declare siftDown_loop.simps [simp del]

definition siftDown_func ::
  "('a \<Rightarrow> 'a \<Rightarrow> bool) \<Rightarrow> 'a list \<Rightarrow> nat \<Rightarrow> nat \<Rightarrow> nat \<Rightarrow> 'a list" where
  "siftDown_func lt xs lo hi first = siftDown_loop lt xs hi first lo"

fun heapify_loop :: "('a \<Rightarrow> 'a \<Rightarrow> bool) \<Rightarrow> 'a list \<Rightarrow> nat \<Rightarrow> nat \<Rightarrow> nat \<Rightarrow> 'a list" where
  "heapify_loop lt xs hi first 0 = siftDown_func lt xs 0 hi first"
| "heapify_loop lt xs hi first (Suc i) =
     heapify_loop lt (siftDown_func lt xs (Suc i) hi first) hi first i"

fun pop_loop :: "('a \<Rightarrow> 'a \<Rightarrow> bool) \<Rightarrow> 'a list \<Rightarrow> nat \<Rightarrow> nat \<Rightarrow> nat \<Rightarrow> 'a list" where
  "pop_loop lt xs lo first 0 = siftDown_func lt (swap xs first (first + 0)) lo 0 first"
| "pop_loop lt xs lo first (Suc i) =
     pop_loop lt (siftDown_func lt (swap xs first (first + Suc i)) lo (Suc i) first) lo first i"

definition heapSort_func :: "('a \<Rightarrow> 'a \<Rightarrow> bool) \<Rightarrow> 'a list \<Rightarrow> nat \<Rightarrow> nat \<Rightarrow> 'a list" where
  "heapSort_func lt xs a b =
     (let first = a; lo = 0; hi = b - a;
          xs1 = heapify_loop lt xs hi first ((hi - 1) div 2)
      in if hi \<ge> 1 then pop_loop lt xs1 lo first (hi - 1) else xs1)"

definition medianOfThree_func ::
  "('a \<Rightarrow> 'a \<Rightarrow> bool) \<Rightarrow> 'a list \<Rightarrow> nat \<Rightarrow> nat \<Rightarrow> nat \<Rightarrow> 'a list" where
  "medianOfThree_func lt xs m1 m0 m2 =
     (let xs1 = (if lt (xs ! m1) (xs ! m0) then swap xs m1 m0 else xs) in
      if lt (xs1 ! m2) (xs1 ! m1) then
        (let xs2 = swap xs1 m2 m1 in
         if lt (xs2 ! m1) (xs2 ! m0) then swap xs2 m1 m0 else xs2)
      else xs1)"

text \<open>
  \<^verbatim>\<open>doPivot_func\<close>. Its scanning loops: \<open>scan_less\<close> advances \<open>a\<close> while
  \<^verbatim>\<open>data[a] < pivot\<close>, \<open>scan_le\<close> advances \<open>b\<close> while \<^verbatim>\<open>data[b] <= pivot\<close>,
  \<open>scan_greater\<close> lowers \<open>c\<close> while \<^verbatim>\<open>data[c-1] > pivot\<close>, \<open>scan_ge_down\<close> lowers
  \<open>b\<close> while \<^verbatim>\<open>data[b-1] >= pivot\<close>; \<open>partition_loop\<close> and \<open>protect_loop\<close> are the
  two \<^verbatim>\<open>for { ... }\<close> loops and \<open>dups_test\<close> the three equality probes.
  \<open>pivot_medians\<close> is the choice of the pivot (the ninther for more than 40 elements,
  then the median of three, which leaves the pivot at \<open>lo\<close>), \<open>dups_phase\<close> the
  block guarded by \<^verbatim>\<open>!protect && hi-c < (hi-lo)/4\<close> and \<open>protect_phase\<close> the block
  guarded by \<^verbatim>\<open>protect\<close>.
\<close>

function scan_less :: "('a \<Rightarrow> 'a \<Rightarrow> bool) \<Rightarrow> 'a list \<Rightarrow> nat \<Rightarrow> nat \<Rightarrow> nat \<Rightarrow> nat" where
  "scan_less lt xs pivot a c =
     (if a < c \<and> lt (xs ! a) (xs ! pivot) then scan_less lt xs pivot (a + 1) c else a)"
  by pat_completeness auto
termination
  by (relation "measure (\<lambda>(lt, xs, pivot, a, c). c - a)") auto

declare scan_less.simps [simp del]

function scan_le :: "('a \<Rightarrow> 'a \<Rightarrow> bool) \<Rightarrow> 'a list \<Rightarrow> nat \<Rightarrow> nat \<Rightarrow> nat \<Rightarrow> nat" where
  "scan_le lt xs pivot b c =
     (if b < c \<and> \<not> lt (xs ! pivot) (xs ! b) then scan_le lt xs pivot (b + 1) c else b)"
  by pat_completeness auto
termination
  by (relation "measure (\<lambda>(lt, xs, pivot, b, c). c - b)") auto

declare scan_le.simps [simp del]

function scan_greater :: "('a \<Rightarrow> 'a \<Rightarrow> bool) \<Rightarrow> 'a list \<Rightarrow> nat \<Rightarrow> nat \<Rightarrow> nat \<Rightarrow> nat" where
  "scan_greater lt xs pivot b c =
     (if b < c \<and> lt (xs ! pivot) (xs ! (c - 1)) then scan_greater lt xs pivot b (c - 1) else c)"
  by pat_completeness auto
termination
  by (relation "measure (\<lambda>(lt, xs, pivot, b, c). c)") auto

declare scan_greater.simps [simp del]

function partition_loop ::
  "('a \<Rightarrow> 'a \<Rightarrow> bool) \<Rightarrow> 'a list \<Rightarrow> nat \<Rightarrow> nat \<Rightarrow> nat \<Rightarrow> 'a list \<times> nat \<times> nat" where
  "partition_loop lt xs pivot b c =
     (let b1 = scan_le lt xs pivot b c;
          c1 = scan_greater lt xs pivot b1 c
      in if b1 \<ge> c1 then (xs, b1, c1)
         else partition_loop lt (swap xs b1 (c1 - 1)) pivot (b1 + 1) (c1 - 1))"
  by pat_completeness auto
termination
proof (relation "measure (\<lambda>(lt, xs, pivot, b, c). c - b)")
  show "wf (measure (\<lambda>(lt, xs, pivot, b, c). c - b))" by simp
next
  fix lt :: "'a \<Rightarrow> 'a \<Rightarrow> bool" and xs :: "'a list" and pivot b c b1 c1 :: nat
  assume b1: "b1 = scan_le lt xs pivot b c" and c1: "c1 = scan_greater lt xs pivot b1 c"
    and lt: "\<not> c1 \<le> b1"
  have "scan_le lt xs pivot b c \<ge> b"
    by (induction lt xs pivot b c rule: scan_le.induct) (subst scan_le.simps, auto)
  moreover have "scan_greater lt xs pivot b1 c \<le> c"
    by (induction lt xs pivot b1 c rule: scan_greater.induct) (subst scan_greater.simps, auto)
  ultimately show "((lt, swap xs b1 (c1 - 1), pivot, b1 + 1, c1 - 1), (lt, xs, pivot, b, c))
      \<in> measure (\<lambda>(lt, xs, pivot, b, c). c - b)"
    using b1 c1 lt by simp
qed

declare partition_loop.simps [simp del]

function scan_ge_down :: "('a \<Rightarrow> 'a \<Rightarrow> bool) \<Rightarrow> 'a list \<Rightarrow> nat \<Rightarrow> nat \<Rightarrow> nat \<Rightarrow> nat" where
  "scan_ge_down lt xs pivot a b =
     (if a < b \<and> \<not> lt (xs ! (b - 1)) (xs ! pivot) then scan_ge_down lt xs pivot a (b - 1) else b)"
  by pat_completeness auto
termination
  by (relation "measure (\<lambda>(lt, xs, pivot, a, b). b)") auto

declare scan_ge_down.simps [simp del]

function protect_loop ::
  "('a \<Rightarrow> 'a \<Rightarrow> bool) \<Rightarrow> 'a list \<Rightarrow> nat \<Rightarrow> nat \<Rightarrow> nat \<Rightarrow> 'a list \<times> nat \<times> nat" where
  "protect_loop lt xs pivot a b =
     (let b1 = scan_ge_down lt xs pivot a b;
          a1 = scan_less lt xs pivot a b1
      in if a1 \<ge> b1 then (xs, a1, b1)
         else protect_loop lt (swap xs a1 (b1 - 1)) pivot (a1 + 1) (b1 - 1))"
  by pat_completeness auto
termination
proof (relation "measure (\<lambda>(lt, xs, pivot, a, b). b - a)")
  show "wf (measure (\<lambda>(lt, xs, pivot, a, b). b - a))" by simp
next
  fix lt :: "'a \<Rightarrow> 'a \<Rightarrow> bool" and xs :: "'a list" and pivot a b a1 b1 :: nat
  assume b1: "b1 = scan_ge_down lt xs pivot a b" and a1: "a1 = scan_less lt xs pivot a b1"
    and lt: "\<not> b1 \<le> a1"
  have "scan_ge_down lt xs pivot a b \<le> b"
    by (induction lt xs pivot a b rule: scan_ge_down.induct) (subst scan_ge_down.simps, auto)
  moreover have "scan_less lt xs pivot a b1 \<ge> a"
    by (induction lt xs pivot a b1 rule: scan_less.induct) (subst scan_less.simps, auto)
  ultimately show "((lt, swap xs a1 (b1 - 1), pivot, a1 + 1, b1 - 1), (lt, xs, pivot, a, b))
      \<in> measure (\<lambda>(lt, xs, pivot, a, b). b - a)"
    using b1 a1 lt by simp
qed

declare protect_loop.simps [simp del]

definition dups_test ::
  "('a \<Rightarrow> 'a \<Rightarrow> bool) \<Rightarrow> 'a list \<Rightarrow> nat \<Rightarrow> nat \<Rightarrow> nat \<Rightarrow> nat \<Rightarrow> nat \<Rightarrow>
     'a list \<times> nat \<times> nat \<times> nat" where
  "dups_test lt xs pivot m hi b c =
     (let (xs1, c1, dups1) =
            (if \<not> lt (xs ! pivot) (xs ! (hi - 1)) then (swap xs c (hi - 1), c + 1, 1)
             else (xs, c, 0 :: nat));
          (b2, dups2) =
            (if \<not> lt (xs1 ! (b - 1)) (xs1 ! pivot) then (b - 1, dups1 + 1) else (b, dups1));
          (xs3, b3, dups3) =
            (if \<not> lt (xs1 ! m) (xs1 ! pivot) then (swap xs1 m (b2 - 1), b2 - 1, dups2 + 1)
             else (xs1, b2, dups2))
      in (xs3, b3, c1, dups3))"

definition pivot_medians :: "('a \<Rightarrow> 'a \<Rightarrow> bool) \<Rightarrow> 'a list \<Rightarrow> nat \<Rightarrow> nat \<Rightarrow> 'a list" where
  "pivot_medians lt xs lo hi =
     (let m = (lo + hi) div 2;
          xs0 = (if hi - lo > 40 then
                   (let s = (hi - lo) div 8;
                        ys1 = medianOfThree_func lt xs lo (lo + s) (lo + 2 * s);
                        ys2 = medianOfThree_func lt ys1 m (m - s) (m + s)
                    in medianOfThree_func lt ys2 (hi - 1) (hi - 1 - s) (hi - 1 - 2 * s))
                 else xs)
      in medianOfThree_func lt xs0 lo m (hi - 1))"

definition dups_phase ::
  "('a \<Rightarrow> 'a \<Rightarrow> bool) \<Rightarrow> 'a list \<Rightarrow> nat \<Rightarrow> nat \<Rightarrow> nat \<Rightarrow> nat \<Rightarrow> nat \<Rightarrow>
     'a list \<times> nat \<times> nat \<times> bool" where
  "dups_phase lt xs lo hi m b c =
     (let protect = (hi - c < 5) in
      if \<not> protect \<and> hi - c < (hi - lo) div 4 then
        (case dups_test lt xs lo m hi b c of (ys, b', c', dups) \<Rightarrow> (ys, b', c', dups > 1))
      else (xs, b, c, protect))"

definition protect_phase ::
  "('a \<Rightarrow> 'a \<Rightarrow> bool) \<Rightarrow> 'a list \<Rightarrow> nat \<Rightarrow> nat \<Rightarrow> nat \<Rightarrow> bool \<Rightarrow> 'a list \<times> nat" where
  "protect_phase lt xs pivot a b protect =
     (if protect then (case protect_loop lt xs pivot a b of (ys, a', b') \<Rightarrow> (ys, b'))
      else (xs, b))"

definition doPivot_func ::
  "('a \<Rightarrow> 'a \<Rightarrow> bool) \<Rightarrow> 'a list \<Rightarrow> nat \<Rightarrow> nat \<Rightarrow> 'a list \<times> nat \<times> nat" where
  "doPivot_func lt xs lo hi =
     (let m = (lo + hi) div 2;
          xs1 = pivot_medians lt xs lo hi;
          pivot = lo;
          a = scan_less lt xs1 pivot (lo + 1) (hi - 1)
      in case partition_loop lt xs1 pivot a (hi - 1) of (xs2, b, c) \<Rightarrow>
         case dups_phase lt xs2 lo hi m b c of (xs3, b3, c3, protect) \<Rightarrow>
         case protect_phase lt xs3 pivot a b3 protect of (xs4, b4) \<Rightarrow>
           (swap xs4 pivot (b4 - 1), b4 - 1, c3))"

text \<open>
  \<^verbatim>\<open>quickSort_func\<close>. Each round of its loop decrements \<^verbatim>\<open>maxDepth\<close>, recurses on the
  smaller part and continues with the larger; \<open>small_sort\<close> is the code after the loop.
\<close>

function shell_loop ::
  "('a \<Rightarrow> 'a \<Rightarrow> bool) \<Rightarrow> 'a list \<Rightarrow> nat \<Rightarrow> nat \<Rightarrow> 'a list" where
  "shell_loop lt xs b i =
     (if i < b then
        shell_loop lt (if lt (xs ! i) (xs ! (i - 6)) then swap xs i (i - 6) else xs) b (i + 1)
      else xs)"
  by pat_completeness auto
termination
  by (relation "measure (\<lambda>(lt, xs, b, i). b - i)") auto

declare shell_loop.simps [simp del]

definition small_sort :: "('a \<Rightarrow> 'a \<Rightarrow> bool) \<Rightarrow> 'a list \<Rightarrow> nat \<Rightarrow> nat \<Rightarrow> 'a list" where
  "small_sort lt xs a b =
     (if b - a > 1 then insertionSort_func lt (shell_loop lt xs b (a + 6)) a b else xs)"

primrec quickSort_func ::
  "('a \<Rightarrow> 'a \<Rightarrow> bool) \<Rightarrow> 'a list \<Rightarrow> nat \<Rightarrow> nat \<Rightarrow> nat \<Rightarrow> 'a list" where
  "quickSort_func lt xs a b 0 =
     (if b - a > 12 then heapSort_func lt xs a b else small_sort lt xs a b)"
| "quickSort_func lt xs a b (Suc d) =
     (if b - a > 12 then
        (case doPivot_func lt xs a b of (xs1, mlo, mhi) \<Rightarrow>
           if mlo - a < b - mhi then
             quickSort_func lt (quickSort_func lt xs1 a mlo d) mhi b d
           else
             quickSort_func lt (quickSort_func lt xs1 mhi b d) a mlo d)
      else small_sort lt xs a b)"

function maxDepth_loop :: "nat \<Rightarrow> nat \<Rightarrow> nat" where
  "maxDepth_loop i depth = (if i > 0 then maxDepth_loop (i div 2) (depth + 1) else depth)"
  by pat_completeness auto
termination
  by (relation "measure (\<lambda>(i, depth). i)") auto

declare maxDepth_loop.simps [simp del]

definition maxDepth :: "nat \<Rightarrow> nat" where
  "maxDepth n = maxDepth_loop n 0 * 2"

definition sort_Slice :: "('a \<Rightarrow> 'a \<Rightarrow> bool) \<Rightarrow> 'a list \<Rightarrow> 'a list" where
  "sort_Slice lt x = (let length = length x in quickSort_func lt x 0 length (maxDepth length))"

section \<open>Candidate selection and propagation\<close>

text \<open>
  What the engine is given: the quality policy (\<^verbatim>\<open>Quality.Less\<close>, \<^verbatim>\<open>Target.GetMetric\<close>,
  \<^verbatim>\<open>Target.ShouldConsider\<close>; the metric type is \<open>'m\<close>), the constant
  \<^verbatim>\<open>pqa_extension.N\<close>, the extender and the interface groups. \<^verbatim>\<open>Extend\<close> works on the
  segment in place: it is a function from the segment and the two interface identifiers
  to the segment afterwards and the error, if any.
\<close>

record ('q, 'd, 'm) Params =
  Less :: "'q \<Rightarrow> 'm \<Rightarrow> 'm \<Rightarrow> bool"
  GetMetric :: "('q, 'd) Target \<Rightarrow> ('q, 'd) Beacon \<Rightarrow> 'm"
  ShouldConsider :: "('q, 'd) Target \<Rightarrow> ('q, 'd) Beacon \<Rightarrow> bool"
  pqa_N :: nat
  Extend :: "('q, 'd) PathSegment option \<Rightarrow> 16 word \<Rightarrow> 16 word \<Rightarrow>
               ('q, 'd) PathSegment option \<times> ('q, 'd) error option"
  GetInterfaceGroups :: "'q \<Rightarrow> 'd \<Rightarrow> Interface list list"

text \<open>
  Modelled from the spec: \<^verbatim>\<open>beacon.FilterLoop\<close> is not among the sources. It rejects a
  beacon whose segment already traverses the given AS. The engine always passes
  \<^verbatim>\<open>true\<close> for \<open>allowIsdLoop\<close>.
\<close>

definition FilterLoop :: "('q, 'd) Beacon \<Rightarrow> IA \<Rightarrow> bool \<Rightarrow> ('q, 'd) error option" where
  "FilterLoop beacon next allowIsdLoop =
     (case Segment beacon of
        None \<Rightarrow> None
      | Some s \<Rightarrow> if next \<in> set (map Local (ASEntries s)) then Some (New ''AS loop'' [])
                  else None)"

fun applyFilter :: "'a list \<Rightarrow> ('a \<Rightarrow> bool) \<Rightarrow> 'a list" where
  "applyFilter [] keep = []"
| "applyFilter (bcn # bcns) keep =
     (if keep bcn then bcn # applyFilter bcns keep else applyFilter bcns keep)"

text \<open>The first filter: the beacon entered through one of the ingress interfaces.\<close>

fun ingress_filter :: "Interface list \<Rightarrow> ('q, 'd) Beacon \<Rightarrow> bool" where
  "ingress_filter [] bcn = False"
| "ingress_filter (ingressIntf # rest) bcn =
     (if TopoInfo_ID ingressIntf = InIfId bcn then True else ingress_filter rest bcn)"

text \<open>The comparison closure \<^verbatim>\<open>less\<close> of both rankings, on the elements of the slice.\<close>

definition metric_less ::
  "('q, 'd, 'm) Params \<Rightarrow> ('q, 'd) Target \<Rightarrow> ('q, 'd) Beacon \<Rightarrow> ('q, 'd) Beacon \<Rightarrow> bool" where
  "metric_less P target lBcn rBcn =
     Less P (Quality target) (GetMetric P target lBcn) (GetMetric P target rBcn)"

text \<open>
  \<^verbatim>\<open>GetNBestsForGroup\<close>. A failure of \<^verbatim>\<open>GetBeaconsById\<close> is logged and the function goes
  on with the beacons that call returned. \<^verbatim>\<open>src\<close> is not used. Besides the two results
  of the Go function, the model returns the backend afterwards and the messages written
  to the error log.
\<close>

definition GetNBestsForGroup ::
  "('q, 'd, 'm) Params \<Rightarrow> ('q, 'd) Env \<Rightarrow> ('q, 'd) PqaMemoryBackend \<Rightarrow> IA \<Rightarrow> ('q, 'd) Target \<Rightarrow>
     Interface list \<Rightarrow> IA \<Rightarrow>
     ('q, 'd) PqaMemoryBackend \<times> string list \<times> ('q, 'd) Beacon list \<times> ('q, 'd) error option" where
  "GetNBestsForGroup P env b src target ingressIntfs excludeLooping =
     (let bcnIds = GetBeaconIdsForTarget (targetDB b) target in
      if length bcnIds = 0 then (b, [], [], None)
      else
        case GetBeaconsById env (beaconDB b) bcnIds of (db1, fetched, err) \<Rightarrow>
          let logs = (case err of None \<Rightarrow> [] | Some e \<Rightarrow> [''Fetching beacons'']);
              bcnCandidates1 = applyFilter fetched (ingress_filter ingressIntfs);
              bcnCandidates2 = applyFilter bcnCandidates1
                                 (\<lambda>bcn. FilterLoop bcn excludeLooping True = None);
              bcnCandidates3 = applyFilter bcnCandidates2 (ShouldConsider P target);
              bcnCandidates4 = sort_Slice (metric_less P target) bcnCandidates3
          in (b\<lparr>beaconDB := db1\<rparr>, logs,
              if length bcnCandidates4 > pqa_N P then take (pqa_N P) bcnCandidates4
              else bcnCandidates4,
              None))"

definition getNBestFor ::
  "('q, 'd, 'm) Params \<Rightarrow> ('q, 'd) Env \<Rightarrow> ('q, 'd) PqaMemoryBackend \<Rightarrow> IA \<Rightarrow> ('q, 'd) Target \<Rightarrow>
     Interface list \<Rightarrow> IA \<Rightarrow>
     ('q, 'd) PqaMemoryBackend \<times> string list \<times> ('q, 'd) Beacon list" where
  "getNBestFor P env b src target egIntfG neigh =
     (case GetNBestsForGroup P env b src target egIntfG neigh of
        (b1, logs, bcns, Some err) \<Rightarrow> (b1, logs @ [''getting n-best beacons''], [])
      | (b1, logs, bcns, None) \<Rightarrow> (b1, logs, bcns))"

text \<open>\<^verbatim>\<open>getNBest\<close>; \<^verbatim>\<open>logBcnMetrics\<close> computes the metrics and does nothing with them.\<close>

definition getNBest ::
  "('q, 'd, 'm) Params \<Rightarrow> ('q, 'd) Target \<Rightarrow> ('q, 'd) Beacon list \<Rightarrow> ('q, 'd) Beacon list" where
  "getNBest P target bcn =
     (let bcn1 = sort_Slice (metric_less P target) bcn in
      if length bcn1 > pqa_N P then take (pqa_N P) bcn1 else bcn1)"

definition getIntfGroups :: "('q, 'd, 'm) Params \<Rightarrow> ('q, 'd) Target \<Rightarrow> Interface list list" where
  "getIntfGroups P target = GetInterfaceGroups P (Quality target) (Direction target)"

text \<open>
  The three nested loops of \<^verbatim>\<open>getPropagationBatch\<close>, innermost first. Each returns the
  messages logged, the batch so far and the error that ends the call, if any (the batch
  is then \<^verbatim>\<open>nil\<close>); the two outer loops, which query the backend, return it as well.
\<close>

fun bcn_loop ::
  "('q, 'd, 'm) Params \<Rightarrow> ('q, 'd) Target \<Rightarrow> Interface \<Rightarrow>
     ('q, 'd) Beacon list \<Rightarrow> ('q, 'd) Beacon list \<Rightarrow>
     string list \<times> ('q, 'd) Beacon list \<times> ('q, 'd) error option" where
  "bcn_loop P target egIntf batch [] = ([], batch, None)"
| "bcn_loop P target egIntf batch (bcn # rest) =
     (let ingress = InIfId bcn;
          egress = TopoInfo_ID egIntf;
          bcn1 = bcn\<lparr>EgIfId := egress\<rparr>;
          logs = (if egress = 0 then [''egress interface ID is 0''] else [])
      in case Extend P (Segment bcn1) ingress egress of
           (seg1, Some err) \<Rightarrow>
             (logs, [],
              Some (WrapStr ''extending beacons'' err
                      [(''ingress'', CtxIfid ingress), (''egress'', CtxIfid egress),
                       (''seg'', CtxSeg seg1)]))
         | (seg1, None) \<Rightarrow>
             (let bcn2 = bcn1\<lparr>Segment := seg1\<rparr> in
              case bcn_loop P target egIntf
                     (if ShouldConsider P target bcn2 then batch @ [bcn2] else batch) rest of
                (logs2, batch2, err2) \<Rightarrow> (logs @ logs2, batch2, err2)))"

fun egIntf_loop ::
  "('q, 'd, 'm) Params \<Rightarrow> ('q, 'd) Env \<Rightarrow> IA \<Rightarrow> ('q, 'd) Target \<Rightarrow> Interface list \<Rightarrow> IA \<Rightarrow>
     ('q, 'd) PqaMemoryBackend \<Rightarrow> ('q, 'd) Beacon list \<Rightarrow> Interface list \<Rightarrow>
     ('q, 'd) PqaMemoryBackend \<times> string list \<times> ('q, 'd) Beacon list \<times> ('q, 'd) error option" where
  "egIntf_loop P env src target igIntfG neigh b batch [] = (b, [], batch, None)"
| "egIntf_loop P env src target igIntfG neigh b batch (egIntf # rest) =
     (case getNBestFor P env b src target igIntfG neigh of (b1, logs1, bcns) \<Rightarrow>
        case bcn_loop P target egIntf batch bcns of
          (logs2, batch2, Some err) \<Rightarrow> (b1, logs1 @ logs2, [], Some err)
        | (logs2, batch2, None) \<Rightarrow>
            (case egIntf_loop P env src target igIntfG neigh b1 batch2 rest of
               (b3, logs3, batch3, err3) \<Rightarrow> (b3, logs1 @ logs2 @ logs3, batch3, err3)))"

fun igIntfG_loop ::
  "('q, 'd, 'm) Params \<Rightarrow> ('q, 'd) Env \<Rightarrow> IA \<Rightarrow> ('q, 'd) Target \<Rightarrow> Interface list \<Rightarrow> IA \<Rightarrow>
     ('q, 'd) PqaMemoryBackend \<Rightarrow> ('q, 'd) Beacon list \<Rightarrow> Interface list list \<Rightarrow>
     ('q, 'd) PqaMemoryBackend \<times> string list \<times> ('q, 'd) Beacon list \<times> ('q, 'd) error option" where
  "igIntfG_loop P env src target egIntfG neigh b batch [] = (b, [], batch, None)"
| "igIntfG_loop P env src target egIntfG neigh b batch (igIntfG # rest) =
     (case egIntf_loop P env src target igIntfG neigh b batch egIntfG of
        (b1, logs1, batch1, Some err) \<Rightarrow> (b1, logs1, [], Some err)
      | (b1, logs1, batch1, None) \<Rightarrow>
          (case igIntfG_loop P env src target egIntfG neigh b1 batch1 rest of
             (b2, logs2, batch2, err2) \<Rightarrow> (b2, logs1 @ logs2, batch2, err2)))"

definition getPropagationBatch ::
  "('q, 'd, 'm) Params \<Rightarrow> ('q, 'd) Env \<Rightarrow> ('q, 'd) PqaMemoryBackend \<Rightarrow> ('q, 'd) Target \<Rightarrow>
     Interface list \<Rightarrow> IA \<Rightarrow> IA \<Rightarrow>
     ('q, 'd) PqaMemoryBackend \<times> string list \<times> ('q, 'd) Beacon list \<times> ('q, 'd) error option" where
  "getPropagationBatch P env b target egIntfG neigh src =
     (case igIntfG_loop P env src target egIntfG neigh b [] (getIntfGroups P target) of
        (b1, logs, batch, Some err) \<Rightarrow> (b1, logs, [], Some err)
      | (b1, logs, batch, None) \<Rightarrow> (b1, logs, getNBest P target batch, None))"

section \<open>Notions for the statements about sorting and propagation\<close>

text \<open>
  The candidates that \<^verbatim>\<open>getPropagationBatch\<close> hands to the extender when no extension
  fails, each with its egress interface, in the order of the loops.
\<close>

fun tried_egIntf ::
  "('q, 'd, 'm) Params \<Rightarrow> ('q, 'd) Env \<Rightarrow> IA \<Rightarrow> ('q, 'd) Target \<Rightarrow> Interface list \<Rightarrow> IA \<Rightarrow>
     ('q, 'd) PqaMemoryBackend \<Rightarrow> Interface list \<Rightarrow>
     ('q, 'd) PqaMemoryBackend \<times> (('q, 'd) Beacon \<times> Interface) list" where
  "tried_egIntf P env src target igIntfG neigh b [] = (b, [])"
| "tried_egIntf P env src target igIntfG neigh b (egIntf # rest) =
     (case getNBestFor P env b src target igIntfG neigh of (b1, logs1, bcns) \<Rightarrow>
        case tried_egIntf P env src target igIntfG neigh b1 rest of
          (b2, others) \<Rightarrow> (b2, map (\<lambda>bcn. (bcn, egIntf)) bcns @ others))"

fun tried_igIntfG ::
  "('q, 'd, 'm) Params \<Rightarrow> ('q, 'd) Env \<Rightarrow> IA \<Rightarrow> ('q, 'd) Target \<Rightarrow> Interface list \<Rightarrow> IA \<Rightarrow>
     ('q, 'd) PqaMemoryBackend \<Rightarrow> Interface list list \<Rightarrow>
     ('q, 'd) PqaMemoryBackend \<times> (('q, 'd) Beacon \<times> Interface) list" where
  "tried_igIntfG P env src target egIntfG neigh b [] = (b, [])"
| "tried_igIntfG P env src target egIntfG neigh b (igIntfG # rest) =
     (case tried_egIntf P env src target igIntfG neigh b egIntfG of (b1, cs) \<Rightarrow>
        case tried_igIntfG P env src target egIntfG neigh b1 rest of
          (b2, others) \<Rightarrow> (b2, cs @ others))"

definition tried ::
  "('q, 'd, 'm) Params \<Rightarrow> ('q, 'd) Env \<Rightarrow> ('q, 'd) PqaMemoryBackend \<Rightarrow> ('q, 'd) Target \<Rightarrow>
     Interface list \<Rightarrow> IA \<Rightarrow> IA \<Rightarrow> (('q, 'd) Beacon \<times> Interface) list" where
  "tried P env b target egIntfG neigh src =
     snd (tried_igIntfG P env src target egIntfG neigh b (getIntfGroups P target))"

text \<open>Whether the extender fails on a candidate, and the beacon it leaves otherwise.\<close>

definition extend_fails :: "('q, 'd, 'm) Params \<Rightarrow> ('q, 'd) Beacon \<times> Interface \<Rightarrow> bool" where
  "extend_fails P c =
     (snd (Extend P (Segment (fst c)) (InIfId (fst c)) (TopoInfo_ID (snd c))) \<noteq> None)"

definition extended :: "('q, 'd, 'm) Params \<Rightarrow> ('q, 'd) Beacon \<times> Interface \<Rightarrow> ('q, 'd) Beacon" where
  "extended P c =
     (fst c)\<lparr>EgIfId := TopoInfo_ID (snd c),
             Segment := fst (Extend P (Segment (fst c)) (InIfId (fst c)) (TopoInfo_ID (snd c)))\<rparr>"

text \<open>Whether the segment of a beacon traverses an AS.\<close>

definition traverses :: "('q, 'd) Beacon \<Rightarrow> IA \<Rightarrow> bool" where
  "traverses bcn ia =
     (case Segment bcn of None \<Rightarrow> False | Some s \<Rightarrow> ia \<in> set (map Local (ASEntries s)))"

text \<open>
  For the correctness of the sort: a strict weak order (irreflexive, transitive, with
  transitive incomparability), a range \<open>[a, b)\<close> of a list being sorted, two lists that
  are permutations of each other and agree outside \<open>[a, b)\<close>, the invariant of the
  partitioning around the pivot at \<open>lo\<close> (below \<open>a\<close>: less; below \<open>b\<close>: not greater;
  from \<open>b\<close> to \<open>c\<close>: equivalent; from \<open>c\<close>: not less), and the heap property of
  \<open>[first, first + hi)\<close> for the parents from \<open>lo\<close> on.
\<close>

definition strict_weak_order :: "('a \<Rightarrow> 'a \<Rightarrow> bool) \<Rightarrow> bool" where
  "strict_weak_order lt =
     ((\<forall>x. \<not> lt x x) \<and> (\<forall>x y z. lt x y \<and> lt y z \<longrightarrow> lt x z) \<and>
      (\<forall>x y z. \<not> lt x y \<and> \<not> lt y z \<longrightarrow> \<not> lt x z))"

definition sorted_range :: "('a \<Rightarrow> 'a \<Rightarrow> bool) \<Rightarrow> 'a list \<Rightarrow> nat \<Rightarrow> nat \<Rightarrow> bool" where
  "sorted_range lt xs a b = (\<forall>i j. a \<le> i \<and> i < j \<and> j < b \<longrightarrow> \<not> lt (xs ! j) (xs ! i))"

definition same_outside :: "nat \<Rightarrow> nat \<Rightarrow> 'a list \<Rightarrow> 'a list \<Rightarrow> bool" where
  "same_outside a b xs ys =
     (length ys = length xs \<and> mset ys = mset xs \<and>
      (\<forall>k < length xs. k < a \<or> b \<le> k \<longrightarrow> ys ! k = xs ! k))"

definition pstate ::
  "('a \<Rightarrow> 'a \<Rightarrow> bool) \<Rightarrow> 'a list \<Rightarrow> nat \<Rightarrow> nat \<Rightarrow> nat \<Rightarrow> nat \<Rightarrow> nat \<Rightarrow> bool" where
  "pstate lt xs lo hi a b c =
     (lo < a \<and> a \<le> b \<and> b \<le> c \<and> c \<le> hi \<and> hi \<le> length xs \<and>
      (\<forall>k. lo < k \<and> k < a \<longrightarrow> lt (xs ! k) (xs ! lo)) \<and>
      (\<forall>k. lo < k \<and> k < b \<longrightarrow> \<not> lt (xs ! lo) (xs ! k)) \<and>
      (\<forall>k. b \<le> k \<and> k < c \<longrightarrow> \<not> lt (xs ! k) (xs ! lo) \<and> \<not> lt (xs ! lo) (xs ! k)) \<and>
      (\<forall>k. c \<le> k \<and> k < hi \<longrightarrow> \<not> lt (xs ! k) (xs ! lo)))"

definition heap_from :: "('a \<Rightarrow> 'a \<Rightarrow> bool) \<Rightarrow> 'a list \<Rightarrow> nat \<Rightarrow> nat \<Rightarrow> nat \<Rightarrow> bool" where
  "heap_from lt xs first lo hi =
     (\<forall>c. 1 \<le> c \<and> c < hi \<and> lo \<le> (c - 1) div 2 \<longrightarrow>
          \<not> lt (xs ! (first + (c - 1) div 2)) (xs ! (first + c)))"

section \<open>Example values\<close>

definition mkEntry :: "IA \<Rightarrow> 16 word \<Rightarrow> (unit, unit) ASEntry" where
  "mkEntry ia ifid = \<lparr>Local = ia, ConsIngress = ifid, PqaExtension = None\<rparr>"


definition IA1 :: IA where "IA1 = \<lparr>IA_I = 1, IA_A = 1\<rparr>"
definition IA2 :: IA where "IA2 = \<lparr>IA_I = 1, IA_A = 2\<rparr>"

text \<open>A toy codec: a segment is packed as the AS numbers of its entries.\<close>

definition exPack :: "(unit, unit) PathSegment \<Rightarrow> 8 word list" where
  "exPack s = map (\<lambda>e. ucast (IA_A (Local e))) (ASEntries s)"

definition exUnpack :: "8 word list \<Rightarrow> (unit, unit) PathSegment" where
  "exUnpack bs = \<lparr>Timestamp = 0, ASEntries = map (\<lambda>w. mkEntry \<lparr>IA_I = 1, IA_A = ucast w\<rparr> 0) bs\<rparr>"

definition exEnv :: "(unit, unit) Env" where
  "exEnv = \<lparr>seg_ID = exPack, seg_FullID = exPack,
            MaxExpiry = (\<lambda>s. Timestamp s + 3000000000),
            PackBeacon = (\<lambda>s. Inr (exPack s)),
            UnpackBeacon = (\<lambda>bs. Inr (exUnpack bs)),
            Now = 20000000000\<rparr>"



definition exRow :: Row where
  "exRow = \<lparr>RowID = 1, SegID = [1, 2], FullID = [1, 2], StartIsd = 1, StartAs = 1,
            InIntfID = 3, HopsLength = 2, InfoTime = 5, ExpirationTime = 8,
            LastUpdated = 20000000000, Usage = 1, Packed = [1, 2]\<rparr>"

definition exDB :: "Row list \<Rightarrow> (unit, unit) Beacons" where
  "exDB tbl = \<lparr>rows = tbl, driver = []\<rparr>"

definition exEntryPqa :: "IA \<Rightarrow> 16 word \<Rightarrow> (unit, unit) ASEntry" where
  "exEntryPqa ia ifid =
     \<lparr>Local = ia, ConsIngress = ifid,
      PqaExtension = Some \<lparr>ext_Quality = (), ext_Direction = (), ext_Uniquifier = 9\<rparr>\<rparr>"

definition exBcnOf :: "int \<Rightarrow> (unit, unit) ASEntry list \<Rightarrow> (unit, unit) Beacon" where
  "exBcnOf t es = \<lparr>Segment = Some \<lparr>Timestamp = t, ASEntries = es\<rparr>, InIfId = 3, EgIfId = 0\<rparr>"

section \<open>Properties of \<^verbatim>\<open>Diversity\<close>\<close>







section \<open>Properties of neighbour enumeration\<close>

lemma append_loop_eq: "append_loop res keys = res @ keys"
  by (induction keys arbitrary: res) auto

lemma set_loop_set: "set (set_loop keys intfs) = set keys \<union> TopoInfo_IA ` set intfs"
  by (induction intfs arbitrary: keys) auto

lemma set_loop_distinct: "distinct keys \<Longrightarrow> distinct (set_loop keys intfs)"
  by (induction intfs arbitrary: keys) auto

lemma getNeighbouringASs_eq:
  "getNeighbouringASs intfs =
     replicate (length (set_loop [] intfs)) zeroIA @ set_loop [] intfs"
  by (simp add: getNeighbouringASs_def append_loop_eq Let_def)

lemma getNeighbouringASs_length:
  "length (getNeighbouringASs intfs) = 2 * card (TopoInfo_IA ` set intfs)"
proof -
  have "distinct (set_loop [] intfs)" by (simp add: set_loop_distinct)
  then have "length (set_loop [] intfs) = card (set (set_loop [] intfs))"
    by (simp add: distinct_card)
  then show ?thesis by (simp add: getNeighbouringASs_eq set_loop_set)
qed

text \<open>
  C2. With a single interface whose remote AS is IA1, neighbour enumeration returns two
  elements: the zero value, which is the remote AS of no interface, and then IA1.
\<close>

theorem getNeighbouringASs_zero_entry:
  "getNeighbouringASs [\<lparr>TopoInfo_ID = 1, TopoInfo_IA = IA1\<rparr>] = [zeroIA, IA1]
   \<and> zeroIA \<noteq> IA1"
  by (simp add: getNeighbouringASs_def zeroIA_def IA1_def)

section \<open>Properties of the beacon store\<close>

lemma driver_call_rows: "driver_call db = (a, db1) \<Longrightarrow> rows db1 = rows db"
  by (auto simp: driver_call_def split: list.splits)


lemma getBeaconMeta_rows: "getBeaconMeta db segID = (db1, m, e) \<Longrightarrow> rows db1 = rows db"
  by (auto simp: getBeaconMeta_def split: prod.splits option.splits dest: driver_call_rows)


lemma updateExistingBeacon_err:
  "updateExistingBeacon env db b s usage rowID now = (db2, Some e) \<Longrightarrow> rows db2 = rows db"
  by (auto simp: updateExistingBeacon_def split: sum.splits prod.splits option.splits
           dest: driver_call_rows)



lemma DoInTx_err:
  "DoInTx db action = Return (db3, Some e) \<Longrightarrow> rows db3 = rows db"
  by (auto simp: DoInTx_def split: sum.splits prod.splits option.splits outcome.splits
           dest: driver_call_rows)




lemma scan_loop_ok:
  "scan_loop env db acc rs = (db', bs, None) \<Longrightarrow>
     \<exists>new. bs = acc @ new \<and> map Some new = map (row_beacon env) rs"
proof (induction rs arbitrary: db acc)
  case Nil
  then show ?case by (auto split: prod.splits option.splits)
next
  case (Cons r rs)
  from Cons.prems obtain db2 s where
    u: "UnpackBeacon env (Packed r) = Inr s" and
    rec: "scan_loop env db2 (acc @ [\<lparr>Segment = Some s, InIfId = InIntfID r, EgIfId = 0\<rparr>]) rs = (db', bs, None)"
    by (auto split: prod.splits option.splits sum.splits)
  from Cons.IH[OF rec] obtain new where
    "bs = (acc @ [\<lparr>Segment = Some s, InIfId = InIntfID r, EgIfId = 0\<rparr>]) @ new"
    "map Some new = map (row_beacon env) rs" by blast
  with u show ?case
    by (intro exI[of _ "\<lparr>Segment = Some s, InIfId = InIntfID r, EgIfId = 0\<rparr> # new"])
       (simp add: row_beacon_def)
qed

lemma select_candidates_length:
  "0 \<le> setSize \<Longrightarrow> length (select_candidates tbl usage setSize t src) \<le> nat setSize"
  by (simp add: select_candidates_def sql_limit_def)

lemma select_candidates_set:
  "r \<in> set (select_candidates tbl usage setSize t src) \<Longrightarrow>
     r \<in> set tbl \<and> (Usage r AND usage) = usage \<and>
     (\<not> IsZero src \<longrightarrow> StartIsd r = IA_I src \<and> StartAs r = IA_A src)"
  by (auto simp: select_candidates_def sql_limit_def split: if_splits dest!: in_set_takeD)

lemma select_candidates_sorted:
  "sorted (map HopsLength (select_candidates tbl usage setSize t src))"
  by (simp add: select_candidates_def sql_limit_def take_map[symmetric] sorted_wrt_take)

lemma CandidateBeacons_ok:
  assumes "CandidateBeacons env db setSize usage src = Return (db', bs, None)"
  shows "0 \<le> setSize \<and> length bs \<le> nat setSize \<and>
         map Some bs = map (row_beacon env) (select_candidates (rows db) usage setSize (Unix (Now env)) src)"
proof -
  from assms obtain db1 where 
    sz: "0 \<le> setSize" and r: "rows db1 = rows db" and
    sl: "scan_loop env db1 [] (select_candidates (rows db1) usage setSize (Unix (Now env)) src) = (db', bs, None)"
    by (auto simp: CandidateBeacons_def split: prod.splits option.splits if_splits dest: driver_call_rows)
  from scan_loop_ok[OF sl] r have m: "map Some bs = map (row_beacon env) (select_candidates (rows db) usage setSize (Unix (Now env)) src)"
    by auto
  from arg_cong[OF m, of length] select_candidates_length[OF sz, of "rows db" usage "Unix (Now env)" src]
  have "length bs \<le> nat setSize" by simp
  with sz m show ?thesis by simp
qed

text \<open>
  C4. The store holds one record that expired at second 8; at second 20
  \<^verbatim>\<open>CandidateBeacons(1, 1, 0-0)\<close> returns its beacon: records that are no longer live
  are returned.
\<close>

theorem CandidateBeacons_returns_expired:
  "CandidateBeacons exEnv (exDB [exRow]) 1 1 zeroIA
     = Return (exDB [exRow], [\<lparr>Segment = Some (exUnpack [1, 2]), InIfId = 3, EgIfId = 0\<rparr>], None)
   \<and> ExpirationTime exRow < Unix (Now exEnv)"
  by (simp add: CandidateBeacons_def driver_call_def exDB_def select_candidates_def sql_limit_def
       exRow_def exEnv_def zeroIA_def IsZero_def Unix_def)

section \<open>Properties of the PQA backend\<close>

lemma insertNewBeacon_no_panic:
  "ASEntries s \<noteq> [] \<Longrightarrow> insertNewBeacon env db b s usage now \<noteq> Panic"
  by (cases "ASEntries s")
     (auto simp: insertNewBeacon_def FirstIA_def split: sum.splits prod.splits option.splits)

lemma DoInTx_no_panic:
  "(\<And>tx. action tx \<noteq> Panic) \<Longrightarrow> DoInTx db action \<noteq> Panic"
  by (auto simp: DoInTx_def split: prod.splits option.splits outcome.splits)

lemma executor_InsertBeacon_no_panic:
  assumes "Segment b = Some s" "ASEntries s \<noteq> []"
  shows "executor_InsertBeacon env db b usage \<noteq> Panic"
proof -
  have "DoInTx db1 (\<lambda>tx. insertNewBeacon env tx b s usage (Now env)) \<noteq> Panic" for db1
    by (rule DoInTx_no_panic) (rule insertNewBeacon_no_panic[OF assms(2)])
  with assms(1) show ?thesis
    by (auto simp: executor_InsertBeacon_def Let_def
          split: prod.splits option.splits outcome.splits)
qed

lemma getBeaconID_no_panic:
  "Segment b = Some s \<Longrightarrow> getBeaconID env db b \<noteq> Panic"
  by (auto simp: getBeaconID_def Let_def split: prod.splits option.splits)

text \<open>
  C10. \<^verbatim>\<open>PqaMemoryBackend.InsertBeacon\<close> does not panic when the beacon's segment has at
  least one AS entry, and panics whenever the base insert returns without error for a
  segment without entries. When the first AS entry has no PQA extension the target index
  is left as it was, whatever the later entries carry; the target index changes only
  when the first AS entry carries the extension.
\<close>

theorem PqaMemoryBackend_InsertBeacon_first_entry:
  "(\<forall>s. Segment bcn = Some s \<and> ASEntries s \<noteq> [] \<longrightarrow>
        PqaMemoryBackend_InsertBeacon env b bcn usage \<noteq> Panic)
   \<and> (\<forall>s db1 stats. Segment bcn = Some s \<and> ASEntries s = [] \<and>
          executor_InsertBeacon env (beaconDB b) bcn usage = Return (db1, stats, None) \<longrightarrow>
        PqaMemoryBackend_InsertBeacon env b bcn usage = Panic)
   \<and> (\<forall>s asEntry0 rest b' stats err. Segment bcn = Some s \<and> ASEntries s = asEntry0 # rest \<and>
          PqaExtension asEntry0 = None \<and>
          PqaMemoryBackend_InsertBeacon env b bcn usage = Return (b', stats, err) \<longrightarrow>
        targetDB b' = targetDB b)
   \<and> (\<forall>b' stats err. PqaMemoryBackend_InsertBeacon env b bcn usage = Return (b', stats, err) \<and>
          targetDB b' \<noteq> targetDB b \<longrightarrow>
        (\<exists>s asEntry0 rest x. Segment bcn = Some s \<and> ASEntries s = asEntry0 # rest \<and>
           PqaExtension asEntry0 = Some x))"
proof -
  have nopanic: "PqaMemoryBackend_InsertBeacon env b bcn usage \<noteq> Panic"
    if "Segment bcn = Some s" "ASEntries s \<noteq> []" for s
  proof -
    from that obtain e0 rest where es: "ASEntries s = e0 # rest" by (cases "ASEntries s") auto
    show ?thesis
      using executor_InsertBeacon_no_panic[OF that, of env "beaconDB b" usage]
        getBeaconID_no_panic[OF that(1), of env] that(1) es
      by (auto simp: PqaMemoryBackend_InsertBeacon_def FirstIA_def Let_def
            split: outcome.splits prod.splits option.splits)
  qed
  have panic: "PqaMemoryBackend_InsertBeacon env b bcn usage = Panic"
    if "Segment bcn = Some s" "ASEntries s = []"
       "executor_InsertBeacon env (beaconDB b) bcn usage = Return (db1, stats, None)" for s db1 stats
    using that by (simp add: PqaMemoryBackend_InsertBeacon_def)
  have same: "targetDB b' = targetDB b"
    if "Segment bcn = Some s" "ASEntries s = asEntry0 # rest" "PqaExtension asEntry0 = None"
       "PqaMemoryBackend_InsertBeacon env b bcn usage = Return (b', stats, err)"
    for s asEntry0 rest b' stats err
    using that
    by (auto simp: PqaMemoryBackend_InsertBeacon_def
          split: outcome.splits prod.splits option.splits)
  have only: "\<exists>s asEntry0 rest x. Segment bcn = Some s \<and> ASEntries s = asEntry0 # rest \<and>
           PqaExtension asEntry0 = Some x"
    if "PqaMemoryBackend_InsertBeacon env b bcn usage = Return (b', stats, err)"
       "targetDB b' \<noteq> targetDB b" for b' stats err
    using that
    by (auto simp: PqaMemoryBackend_InsertBeacon_def Let_def
          split: outcome.splits prod.splits option.splits list.splits)
  from nopanic panic same only show ?thesis by blast
qed

theorem PqaMemoryBackend_InsertBeacon_first_entry_witness:
  "PqaMemoryBackend_InsertBeacon exEnv \<lparr>beaconDB = exDB [], targetDB = []\<rparr>
      (exBcnOf 5000000000 [mkEntry IA1 5, exEntryPqa IA2 7]) 1
     = Return (\<lparr>beaconDB = exDB [exRow], targetDB = []\<rparr>, \<lparr>Inserted = 1, Updated = 0\<rparr>, None)
   \<and> PqaExtension (exEntryPqa IA2 7) \<noteq> None
   \<and> executor_InsertBeacon exEnv (exDB [exRow\<lparr>SegID := []\<rparr>]) (exBcnOf 0 []) 1
     = Return (exDB [exRow\<lparr>SegID := []\<rparr>], \<lparr>Inserted = 0, Updated = 0\<rparr>, None)
   \<and> PqaMemoryBackend_InsertBeacon exEnv \<lparr>beaconDB = exDB [exRow\<lparr>SegID := []\<rparr>], targetDB = []\<rparr>
      (exBcnOf 0 []) 1 = Panic
   \<and> PqaMemoryBackend_InsertBeacon exEnv \<lparr>beaconDB = exDB [], targetDB = []\<rparr>
      (exBcnOf 5000000000 [exEntryPqa IA1 5, mkEntry IA2 7]) 1
     = Return (\<lparr>beaconDB = exDB [exRow],
               targetDB = [(1, \<lparr>Quality = (), Direction = (), Uniquifier = 9, Target_IA = IA1\<rparr>)]\<rparr>,
               \<lparr>Inserted = 1, Updated = 0\<rparr>, None)"
proof -
  have e1: "executor_InsertBeacon exEnv (exDB []) (exBcnOf 5000000000 [mkEntry IA1 5, exEntryPqa IA2 7]) 1
     = Return (exDB [exRow], \<lparr>Inserted = 1, Updated = 0\<rparr>, None)"
    by (simp add: executor_InsertBeacon_def getBeaconMeta_def driver_call_def exDB_def exEnv_def
      exBcnOf_def exEntryPqa_def exPack_def mkEntry_def IA1_def IA2_def DoInTx_def
      insertNewBeacon_def FirstIA_def next_RowID_def Unix_def exRow_def)
  have r1: "PqaMemoryBackend_InsertBeacon exEnv \<lparr>beaconDB = exDB [], targetDB = []\<rparr>
      (exBcnOf 5000000000 [mkEntry IA1 5, exEntryPqa IA2 7]) 1
     = Return (\<lparr>beaconDB = exDB [exRow], targetDB = []\<rparr>, \<lparr>Inserted = 1, Updated = 0\<rparr>, None)"
    by (simp add: PqaMemoryBackend_InsertBeacon_def e1) (simp add: exBcnOf_def mkEntry_def)
  have e2: "executor_InsertBeacon exEnv (exDB [exRow\<lparr>SegID := []\<rparr>]) (exBcnOf 0 []) 1
     = Return (exDB [exRow\<lparr>SegID := []\<rparr>], \<lparr>Inserted = 0, Updated = 0\<rparr>, None)"
    by (simp add: executor_InsertBeacon_def getBeaconMeta_def driver_call_def exDB_def exEnv_def
      exBcnOf_def exPack_def time_Unix_def exRow_def Let_def)
  have e3: "executor_InsertBeacon exEnv (exDB []) (exBcnOf 5000000000 [exEntryPqa IA1 5, mkEntry IA2 7]) 1
     = Return (exDB [exRow], \<lparr>Inserted = 1, Updated = 0\<rparr>, None)"
    by (simp add: executor_InsertBeacon_def getBeaconMeta_def driver_call_def exDB_def exEnv_def
      exBcnOf_def exEntryPqa_def exPack_def mkEntry_def IA1_def IA2_def DoInTx_def
      insertNewBeacon_def FirstIA_def next_RowID_def Unix_def exRow_def)
  have r3: "PqaMemoryBackend_InsertBeacon exEnv \<lparr>beaconDB = exDB [], targetDB = []\<rparr>
      (exBcnOf 5000000000 [exEntryPqa IA1 5, mkEntry IA2 7]) 1
     = Return (\<lparr>beaconDB = exDB [exRow],
               targetDB = [(1, \<lparr>Quality = (), Direction = (), Uniquifier = 9, Target_IA = IA1\<rparr>)]\<rparr>,
               \<lparr>Inserted = 1, Updated = 0\<rparr>, None)"
    by (simp add: PqaMemoryBackend_InsertBeacon_def e3)
       (simp add: exBcnOf_def exEntryPqa_def mkEntry_def FirstIA_def getBeaconID_def
          getBeaconMeta_def driver_call_def exDB_def exEnv_def exPack_def exRow_def IA1_def IA2_def
          AssociateBeacon_def Let_def)
  have x: "PqaExtension (exEntryPqa IA2 7) \<noteq> None"
    by (simp add: exEntryPqa_def)
  have s0: "Segment (exBcnOf 0 []) = Some \<lparr>Timestamp = 0, ASEntries = []\<rparr>"
    by (simp add: exBcnOf_def)
  from PqaMemoryBackend_InsertBeacon_first_entry
         [of "exBcnOf 0 []" exEnv "\<lparr>beaconDB = exDB [exRow\<lparr>SegID := []\<rparr>], targetDB = []\<rparr>" 1]
       s0 e2
  have p: "PqaMemoryBackend_InsertBeacon exEnv \<lparr>beaconDB = exDB [exRow\<lparr>SegID := []\<rparr>], targetDB = []\<rparr>
      (exBcnOf 0 []) 1 = Panic"
    by simp
  from r1 x e2 p r3 show ?thesis by blast
qed

section \<open>Correctness of \<^verbatim>\<open>sort.Slice\<close>\<close>


lemma swo_irrefl: "strict_weak_order lt \<Longrightarrow> \<not> lt x x"
  by (auto simp: strict_weak_order_def)

lemma swo_trans: "strict_weak_order lt \<Longrightarrow> lt x y \<Longrightarrow> lt y z \<Longrightarrow> lt x z"
  unfolding strict_weak_order_def by blast

lemma swo_asym: "strict_weak_order lt \<Longrightarrow> lt x y \<Longrightarrow> \<not> lt y x"
  unfolding strict_weak_order_def by blast

lemma swo_le_trans: "strict_weak_order lt \<Longrightarrow> \<not> lt y x \<Longrightarrow> \<not> lt z y \<Longrightarrow> \<not> lt z x"
  unfolding strict_weak_order_def by blast

lemma swo_lt_le_trans: "strict_weak_order lt \<Longrightarrow> lt x y \<Longrightarrow> \<not> lt z y \<Longrightarrow> lt x z"
  unfolding strict_weak_order_def by blast

lemma swo_le_lt_trans: "strict_weak_order lt \<Longrightarrow> \<not> lt y x \<Longrightarrow> lt y z \<Longrightarrow> lt x z"
  unfolding strict_weak_order_def by blast

lemma length_swap [simp]: "length (swap xs i j) = length xs"
  by (simp add: swap_def)

lemma mset_swap_list: "i < length xs \<Longrightarrow> j < length xs \<Longrightarrow> mset (swap xs i j) = mset xs"
  by (simp add: swap_def mset_swap)

lemma nth_swap:
  "i < length xs \<Longrightarrow> j < length xs \<Longrightarrow> k < length xs \<Longrightarrow>
     swap xs i j ! k = (if k = i then xs ! j else if k = j then xs ! i else xs ! k)"
  by (auto simp: swap_def nth_list_update)

lemma same_outside_refl [simp]: "same_outside a b xs xs"
  by (simp add: same_outside_def)

lemma same_outside_trans:
  "same_outside a b xs ys \<Longrightarrow> same_outside a b ys zs \<Longrightarrow> same_outside a b xs zs"
  by (auto simp: same_outside_def)

lemma same_outside_mono:
  "same_outside a b xs ys \<Longrightarrow> a' \<le> a \<Longrightarrow> b \<le> b' \<Longrightarrow> same_outside a' b' xs ys"
  by (auto simp: same_outside_def)

lemma same_outside_swap:
  "a \<le> i \<Longrightarrow> i < b \<Longrightarrow> a \<le> j \<Longrightarrow> j < b \<Longrightarrow> b \<le> length xs \<Longrightarrow>
     same_outside a b xs (swap xs i j)"
  by (auto simp: same_outside_def mset_swap_list nth_swap)

lemma same_outside_length: "same_outside a b xs ys \<Longrightarrow> length ys = length xs"
  by (simp add: same_outside_def)

lemma same_outside_nth:
  "same_outside a b xs ys \<Longrightarrow> k < length xs \<Longrightarrow> k < a \<or> b \<le> k \<Longrightarrow> ys ! k = xs ! k"
  by (auto simp: same_outside_def)

text \<open>The elements inside the range are permuted.\<close>

lemma same_outside_mset_slice:
  assumes so: "same_outside a b xs ys" and ab: "a \<le> b" "b \<le> length xs"
  shows "mset (take (b - a) (drop a ys)) = mset (take (b - a) (drop a xs))"
proof -
  have len: "length ys = length xs" using so by (simp add: same_outside_def)
  have t: "take a ys = take a xs"
    using so ab len by (intro nth_equalityI) (auto simp: same_outside_def)
  have d: "drop b ys = drop b xs"
    using so ab len by (intro nth_equalityI) (auto simp: same_outside_def)
  have dec: "zs = take a zs @ take (b - a) (drop a zs) @ drop b zs" if "b \<le> length zs" for zs :: "'a list"
  proof -
    have "drop a zs = take (b - a) (drop a zs) @ drop (b - a) (drop a zs)"
      by (rule append_take_drop_id[symmetric])
    moreover have "drop (b - a) (drop a zs) = drop b zs" using ab by simp
    ultimately show ?thesis by (metis append_take_drop_id)
  qed
  have "mset ys = mset (take a ys) + mset (take (b - a) (drop a ys)) + mset (drop b ys)"
    using dec[of ys] ab len by (metis mset_append add.assoc)
  moreover have "mset xs = mset (take a xs) + mset (take (b - a) (drop a xs)) + mset (drop b xs)"
    using dec[of xs] ab by (metis mset_append add.assoc)
  moreover have "mset ys = mset xs" using so by (simp add: same_outside_def)
  ultimately show ?thesis using t d by simp
qed

lemma same_outside_range_all:
  assumes so: "same_outside a b xs ys" and ab: "a \<le> b" "b \<le> length xs"
    and P: "\<forall>k. a \<le> k \<and> k < b \<longrightarrow> P (xs ! k)"
  shows "\<forall>k. a \<le> k \<and> k < b \<longrightarrow> P (ys ! k)"
proof (intro allI impI)
  fix k assume k: "a \<le> k \<and> k < b"
  have len: "length ys = length xs" using so by (simp add: same_outside_def)
  have "k - a < b - a" using k by arith
  then have "take (b - a) (drop a ys) ! (k - a) = drop a ys ! (k - a)" by (rule nth_take)
  also have "\<dots> = ys ! (a + (k - a))" using k ab len by (intro nth_drop) simp
  finally have "ys ! k = take (b - a) (drop a ys) ! (k - a)" using k by simp
  moreover have "k - a < length (take (b - a) (drop a ys))" using k ab len by auto
  ultimately have "ys ! k \<in> set (take (b - a) (drop a ys))" by (metis nth_mem)
  then have "ys ! k \<in> set (take (b - a) (drop a xs))"
    using same_outside_mset_slice[OF so ab] by (metis set_mset_mset)
  then obtain i where "i < length (take (b - a) (drop a xs))" "take (b - a) (drop a xs) ! i = ys ! k"
    by (auto simp: in_set_conv_nth)
  then have "xs ! (a + i) = ys ! k" "a + i < b" using ab by auto
  with P show "P (ys ! k)" by (metis le_add1)
qed

lemma insert_loop_spec:
  shows "strict_weak_order lt \<Longrightarrow> a \<le> j \<Longrightarrow> j \<le> i \<Longrightarrow> i < length xs \<Longrightarrow>
     (\<forall>p q. a \<le> p \<and> p < q \<and> q \<le> i \<and> p \<noteq> j \<and> q \<noteq> j \<longrightarrow> \<not> lt (xs ! q) (xs ! p)) \<Longrightarrow>
     (\<forall>q. j < q \<and> q \<le> i \<longrightarrow> lt (xs ! j) (xs ! q)) \<Longrightarrow>
     sorted_range lt (insert_loop lt xs a j) a (i + 1) \<and>
     same_outside a (i + 1) xs (insert_loop lt xs a j)"
proof (induction lt xs a j rule: insert_loop.induct)
  case (1 lt xs a j)
  note swo = 1(2)
  have I1: "\<And>p q. a \<le> p \<Longrightarrow> p < q \<Longrightarrow> q \<le> i \<Longrightarrow> p \<noteq> j \<Longrightarrow> q \<noteq> j \<Longrightarrow> \<not> lt (xs ! q) (xs ! p)"
    using 1(6) by blast
  have I2: "\<And>q. j < q \<Longrightarrow> q \<le> i \<Longrightarrow> lt (xs ! j) (xs ! q)"
    using 1(7) by blast
  have aj: "a \<le> j" and ji: "j \<le> i" and il: "i < length xs" using 1(3,4,5) by simp_all
  show ?case
  proof (cases "j > a \<and> lt (xs ! j) (xs ! (j - 1))")
    case True
    then have ja: "a < j" and ltj: "lt (xs ! j) (xs ! (j - 1))" by simp_all
    let ?xs = "swap xs j (j - 1)"
    have jl: "j < length xs" "j - 1 < length xs" "j - 1 \<noteq> j" using ji il ja by simp_all
    have nth: "\<And>k. k < length xs \<Longrightarrow>
        ?xs ! k = (if k = j then xs ! (j - 1) else if k = j - 1 then xs ! j else xs ! k)"
      using jl by (simp add: nth_swap)
    have inv1: "\<forall>p q. a \<le> p \<and> p < q \<and> q \<le> i \<and> p \<noteq> j - 1 \<and> q \<noteq> j - 1 \<longrightarrow> \<not> lt (?xs ! q) (?xs ! p)"
    proof (intro allI impI, elim conjE)
      fix p q assume h: "a \<le> p" "p < q" "q \<le> i" "p \<noteq> j - 1" "q \<noteq> j - 1"
      have pl: "p < length xs" "q < length xs" using h il by simp_all
      show "\<not> lt (?xs ! q) (?xs ! p)"
      proof (cases "q = j")
        case True
        then have pj: "p < j - 1" "p \<noteq> j" using h by simp_all
        have "\<not> lt (xs ! (j - 1)) (xs ! p)"
          by (rule I1) (use pj h ja ji in simp_all)
        then show ?thesis using True pj h pl jl by (simp add: nth_swap)
      next
        case qj: False
        show ?thesis
        proof (cases "p = j")
          case True
          have "\<not> lt (xs ! q) (xs ! (j - 1))"
            by (rule I1) (use True h ja qj in simp_all)
          then show ?thesis using True h pl qj ja jl by (simp add: nth_swap)
        next
          case False
          have "\<not> lt (xs ! q) (xs ! p)"
            by (rule I1) (use False h qj in simp_all)
          then show ?thesis using False h qj pl jl by (simp add: nth_swap)
        qed
      qed
    qed
    have inv2: "\<forall>q. j - 1 < q \<and> q \<le> i \<longrightarrow> lt (?xs ! (j - 1)) (?xs ! q)"
    proof (intro allI impI, elim conjE)
      fix q assume h: "j - 1 < q" "q \<le> i"
      have ql: "q < length xs" using h il by simp
      show "lt (?xs ! (j - 1)) (?xs ! q)"
      proof (cases "q = j")
        case True
        then show ?thesis using ltj ja jl by (simp add: nth_swap)
      next
        case False
        then have "j < q" using h by simp
        then have "lt (xs ! j) (xs ! q)" using h by (intro I2) simp_all
        then show ?thesis using False h jl ql ja by (simp add: nth_swap)
      qed
    qed
    have a1: "a \<le> j - 1" "j - 1 \<le> i" using ja ji by simp_all
    have "sorted_range lt (insert_loop lt ?xs a (j - 1)) a (i + 1) \<and>
          same_outside a (i + 1) ?xs (insert_loop lt ?xs a (j - 1))"
      using 1(1)[OF True swo a1] il inv1 inv2 by simp
    moreover have "same_outside a (i + 1) xs ?xs"
      by (rule same_outside_swap) (use ja ji il in simp_all)
    moreover have "insert_loop lt xs a j = insert_loop lt ?xs a (j - 1)"
      using True by (subst insert_loop.simps) simp
    ultimately show ?thesis using same_outside_trans by metis
  next
    case False
    have eq: "insert_loop lt xs a j = xs"
      using False by (subst insert_loop.simps) auto
    have "sorted_range lt xs a (i + 1)"
      unfolding sorted_range_def
    proof (intro allI impI, elim conjE)
      fix p q assume h: "a \<le> p" "p < q" "q < i + 1"
      show "\<not> lt (xs ! q) (xs ! p)"
      proof (cases "q = j")
        case True
        then have ja: "j > a" using h by simp
        then have nl: "\<not> lt (xs ! j) (xs ! (j - 1))" using False by simp
        show ?thesis
        proof (cases "p = j - 1")
          case True
          then show ?thesis using nl \<open>q = j\<close> by simp
        next
          case pj: False
          then have pj': "p < j - 1" using h True by simp
          have "\<not> lt (xs ! (j - 1)) (xs ! p)"
            by (rule I1) (use pj' h ja ji in simp_all)
          then show ?thesis using nl True swo_le_trans[OF swo] by metis
        qed
      next
        case qj: False
        show ?thesis
        proof (cases "p = j")
          case True
          then have "lt (xs ! j) (xs ! q)" using h by (intro I2) simp_all
          then show ?thesis using True swo_asym[OF swo] by metis
        next
          case False
          show ?thesis by (rule I1) (use False h qj in simp_all)
        qed
      qed
    qed
    then show ?thesis using eq by simp
  qed
qed

lemma sorted_range_mono: "sorted_range lt xs a b \<Longrightarrow> a \<le> a' \<Longrightarrow> b' \<le> b \<Longrightarrow> sorted_range lt xs a' b'"
  by (simp add: sorted_range_def)

lemma insertionSort_loop_spec:
  "strict_weak_order lt \<Longrightarrow> a < i \<Longrightarrow> b \<le> length xs \<Longrightarrow> sorted_range lt xs a i \<Longrightarrow>
     sorted_range lt (insertionSort_loop lt xs a b i) a b \<and>
     same_outside a b xs (insertionSort_loop lt xs a b i)"
proof (induction lt xs a b i rule: insertionSort_loop.induct)
  case (1 lt xs a b i)
  note swo = 1(2)
  show ?case
  proof (cases "i < b")
    case True
    let ?xs = "insert_loop lt xs a i"
    have inv1: "\<forall>p q. a \<le> p \<and> p < q \<and> q \<le> i \<and> p \<noteq> i \<and> q \<noteq> i \<longrightarrow> \<not> lt (xs ! q) (xs ! p)"
      using 1(5) by (simp add: sorted_range_def)
    have inv2: "\<forall>q. i < q \<and> q \<le> i \<longrightarrow> lt (xs ! i) (xs ! q)" by auto
    have il: "i < length xs" using True 1(4) by simp
    have ai: "a \<le> i" using 1(3) by simp
    have st: "sorted_range lt ?xs a (i + 1)" and so: "same_outside a (i + 1) xs ?xs"
      using insert_loop_spec[OF swo ai order_refl il inv1 inv2] by simp_all
    have len: "length ?xs = length xs" using so by (rule same_outside_length)
    have ai1: "a < i + 1" using 1(3) by simp
    have bl: "b \<le> length ?xs" using 1(4) len by simp
    have ih: "sorted_range lt (insertionSort_loop lt ?xs a b (i + 1)) a b \<and>
          same_outside a b ?xs (insertionSort_loop lt ?xs a b (i + 1))"
      by (rule 1(1)[OF True swo ai1 bl st])
    have so': "same_outside a b xs ?xs"
      by (rule same_outside_mono[OF so]) (use True in simp_all)
    have eq: "insertionSort_loop lt xs a b i = insertionSort_loop lt ?xs a b (i + 1)"
      using True by (subst insertionSort_loop.simps) simp
    show ?thesis
      unfolding eq using ih same_outside_trans[OF so'] by blast
  next
    case False
    have eq: "insertionSort_loop lt xs a b i = xs"
      using False by (subst insertionSort_loop.simps) simp
    have "sorted_range lt xs a b"
      by (rule sorted_range_mono[OF 1(5)]) (use False in simp_all)
    then show ?thesis using eq by simp
  qed
qed

lemma insertionSort_func_spec:
  assumes "strict_weak_order lt" "b \<le> length xs"
  shows "sorted_range lt (insertionSort_func lt xs a b) a b \<and>
         same_outside a b xs (insertionSort_func lt xs a b)"
proof -
  have "sorted_range lt xs a (a + 1)" by (auto simp: sorted_range_def)
  then show ?thesis
    unfolding insertionSort_func_def
    using insertionSort_loop_spec[OF assms(1) _ assms(2), of a "a + 1"] by simp
qed

lemma shell_loop_spec:
  "a + 6 \<le> i \<Longrightarrow> b \<le> length xs \<Longrightarrow> same_outside a b xs (shell_loop lt xs b i)"
proof (induction lt xs b i rule: shell_loop.induct)
  case (1 lt xs b i)
  show ?case
  proof (cases "i < b")
    case True
    let ?xs = "if lt (xs ! i) (xs ! (i - 6)) then swap xs i (i - 6) else xs"
    have "same_outside a b xs (swap xs i (i - 6))"
      by (rule same_outside_swap) (use True 1(2,3) in simp_all)
    then have s1: "same_outside a b xs ?xs" by simp
    then have len: "length ?xs = length xs" by (rule same_outside_length)
    have ai1: "a + 6 \<le> i + 1" using 1(2) by simp
    have bl: "b \<le> length ?xs" using 1(3) len by simp
    have ih: "same_outside a b ?xs (shell_loop lt ?xs b (i + 1))"
      by (rule 1(1)[OF True ai1 bl])
    have eq: "shell_loop lt xs b i = shell_loop lt ?xs b (i + 1)"
      using True by (subst shell_loop.simps) simp
    show ?thesis
      unfolding eq by (rule same_outside_trans[OF s1 ih])
  next
    case False
    then have "shell_loop lt xs b i = xs" by (subst shell_loop.simps) simp
    then show ?thesis by simp
  qed
qed

lemma small_sort_spec:
  assumes "strict_weak_order lt" "b \<le> length xs"
  shows "sorted_range lt (small_sort lt xs a b) a b \<and>
         same_outside a b xs (small_sort lt xs a b)"
proof (cases "b - a > 1")
  case True
  let ?xs = "shell_loop lt xs b (a + 6)"
  have s1: "same_outside a b xs ?xs" using assms(2) by (intro shell_loop_spec) simp_all
  then have len: "length ?xs = length xs" by (rule same_outside_length)
  have "sorted_range lt (insertionSort_func lt ?xs a b) a b \<and>
        same_outside a b ?xs (insertionSort_func lt ?xs a b)"
    using insertionSort_func_spec[OF assms(1), of b ?xs a] assms(2) len by simp
  then have "sorted_range lt (insertionSort_func lt ?xs a b) a b"
    and "same_outside a b xs (insertionSort_func lt ?xs a b)"
    using same_outside_trans[OF s1] by simp_all
  then show ?thesis using True by (simp add: small_sort_def)
next
  case False
  then have "sorted_range lt xs a b" by (auto simp: sorted_range_def)
  then show ?thesis using False by (simp add: small_sort_def)
qed

lemma parent_cases: "1 \<le> c \<Longrightarrow> ((c - 1) div 2 = r) = (c = 2 * r + 1 \<or> c = 2 * r + 2)" for c r :: nat
  by presburger

lemma parent_children: "1 \<le> c \<Longrightarrow> (c - 1) div 2 = r \<Longrightarrow> c = 2 * r + 1 \<or> c = 2 * r + 2" for c r :: nat
  by presburger

lemma parent_less: "1 \<le> c \<Longrightarrow> (c - 1) div 2 < c" for c :: nat
  by presburger

lemma siftDown_loop_spec:
  "strict_weak_order lt \<Longrightarrow> lo \<le> root \<Longrightarrow> first + hi \<le> length xs \<Longrightarrow>
   (\<forall>c. 1 \<le> c \<and> c < hi \<and> lo \<le> (c - 1) div 2 \<and> (c - 1) div 2 \<noteq> root \<longrightarrow>
        \<not> lt (xs ! (first + (c - 1) div 2)) (xs ! (first + c))) \<Longrightarrow>
   (1 \<le> root \<and> lo \<le> (root - 1) div 2 \<longrightarrow>
      (\<forall>c. 1 \<le> c \<and> c < hi \<and> (c - 1) div 2 = root \<longrightarrow>
           \<not> lt (xs ! (first + (root - 1) div 2)) (xs ! (first + c)))) \<Longrightarrow>
   heap_from lt (siftDown_loop lt xs hi first root) first lo hi \<and>
   same_outside (first + lo) (first + hi) xs (siftDown_loop lt xs hi first root)"
proof (induction lt xs hi first root rule: siftDown_loop.induct)
  case (1 lt xs hi first root)
  note swo = 1(2)
  note lr = 1(3)
  note len = 1(4)
  have H1: "\<And>c. 1 \<le> c \<Longrightarrow> c < hi \<Longrightarrow> lo \<le> (c - 1) div 2 \<Longrightarrow> (c - 1) div 2 \<noteq> root \<Longrightarrow>
        \<not> lt (xs ! (first + (c - 1) div 2)) (xs ! (first + c))"
    using 1(5) by blast
  have H2: "\<And>c. 1 \<le> root \<Longrightarrow> lo \<le> (root - 1) div 2 \<Longrightarrow> 1 \<le> c \<Longrightarrow> c < hi \<Longrightarrow> (c - 1) div 2 = root \<Longrightarrow>
           \<not> lt (xs ! (first + (root - 1) div 2)) (xs ! (first + c))"
    using 1(6) by blast
  define ch where "ch = 2 * root + 1"
  define ch' where "ch' = (if ch + 1 < hi \<and> lt (xs ! (first + ch)) (xs ! (first + ch + 1)) then ch + 1 else ch)"
  have step: "siftDown_loop lt xs hi first root =
      (if hi \<le> ch then xs
       else if \<not> lt (xs ! (first + root)) (xs ! (first + ch')) then xs
       else siftDown_loop lt (swap xs (first + root) (first + ch')) hi first ch')"
    unfolding ch'_def ch_def by (subst siftDown_loop.simps) (simp add: Let_def)
  show ?case
  proof (cases "hi \<le> ch")
    case True
    have eq: "siftDown_loop lt xs hi first root = xs"
      using True by (simp add: step)
    have "heap_from lt xs first lo hi"
      unfolding heap_from_def
    proof (intro allI impI, elim conjE)
      fix c assume c: "1 \<le> c" "c < hi" "lo \<le> (c - 1) div 2"
      have "(c - 1) div 2 \<noteq> root"
      proof
        assume "(c - 1) div 2 = root"
        then have "c = 2 * root + 1 \<or> c = 2 * root + 2" by (rule parent_children[OF c(1)])
        then show False using True c(2) by (auto simp: ch_def)
      qed
      then show "\<not> lt (xs ! (first + (c - 1) div 2)) (xs ! (first + c))"
        using c by (intro H1)
    qed
    then show ?thesis using eq by simp
  next
    case False
    have ch'hi: "ch' < hi" using False by (simp add: ch'_def)
    have ch'c: "ch' = ch \<or> ch' = ch + 1" by (simp add: ch'_def)
    have ch'1: "1 \<le> ch'" using ch'c by (auto simp: ch_def)
    have ch'p: "(ch' - 1) div 2 = root" using ch'c by (auto simp: ch_def)
    have ch'r: "ch' \<noteq> root" "root < ch'" using ch'c by (auto simp: ch_def)
    have sib: "\<not> lt (xs ! (first + ch')) (xs ! (first + c))"
      if c: "1 \<le> c" "c < hi" "(c - 1) div 2 = root" for c
    proof -
      have cc: "c = ch \<or> c = ch + 1" using parent_children[OF c(1) c(3)] by (simp add: ch_def)
      show ?thesis
      proof (cases "c = ch'")
        case True
        then show ?thesis using swo_irrefl[OF swo] by simp
      next
        case ne: False
        show ?thesis
        proof (cases "ch' = ch")
          case True
          then have c1: "c = ch + 1" using cc ne by simp
          then have "\<not> (ch + 1 < hi \<and> lt (xs ! (first + ch)) (xs ! (first + ch + 1)))"
            using True by (auto simp: ch'_def split: if_splits)
          then have "\<not> lt (xs ! (first + ch)) (xs ! (first + (ch + 1)))" using c(2) c1 by (simp add: add.assoc)
          then show ?thesis using True c1 by simp
        next
          case False
          then have e: "ch' = ch + 1" "c = ch" using ch'c cc ne by auto
          then have "lt (xs ! (first + ch)) (xs ! (first + ch + 1))"
            by (auto simp: ch'_def split: if_splits)
          then have "\<not> lt (xs ! (first + ch + 1)) (xs ! (first + ch))" by (rule swo_asym[OF swo])
          then show ?thesis using e by (simp add: add.assoc)
        qed
      qed
    qed
    show ?thesis
    proof (cases "\<not> lt (xs ! (first + root)) (xs ! (first + ch'))")
      case True
      have eq: "siftDown_loop lt xs hi first root = xs"
        using True False by (simp add: step)
      have "heap_from lt xs first lo hi"
        unfolding heap_from_def
      proof (intro allI impI, elim conjE)
        fix c assume c: "1 \<le> c" "c < hi" "lo \<le> (c - 1) div 2"
        show "\<not> lt (xs ! (first + (c - 1) div 2)) (xs ! (first + c))"
        proof (cases "(c - 1) div 2 = root")
          case pr: True
          have "\<not> lt (xs ! (first + root)) (xs ! (first + c))"
            by (rule swo_le_trans[OF swo sib[OF c(1,2) pr] True])
          then show ?thesis using pr by simp
        next
          case False
          then show ?thesis using c by (intro H1)
        qed
      qed
      then show ?thesis using eq by simp
    next
      case nT: False
      then have ltr: "lt (xs ! (first + root)) (xs ! (first + ch'))" by simp
      let ?xs = "swap xs (first + root) (first + ch')"
      have rl: "first + root < length xs" "first + ch' < length xs"
        using ch'hi ch'r len by simp_all
      have nth: "?xs ! (first + k) =
          (if k = root then xs ! (first + ch') else if k = ch' then xs ! (first + root) else xs ! (first + k))"
        if "k < hi" for k
        using that rl len by (simp add: nth_swap)
      have eq: "siftDown_loop lt xs hi first root = siftDown_loop lt ?xs hi first ch'"
        using nT False by (simp add: step)
      have so: "same_outside (first + lo) (first + hi) xs ?xs"
        by (rule same_outside_swap) (use lr ch'hi ch'r len in simp_all)
      have len': "first + hi \<le> length ?xs" using len by simp
      have lo': "lo \<le> ch'" using lr ch'r by simp
      have H1': "\<forall>c. 1 \<le> c \<and> c < hi \<and> lo \<le> (c - 1) div 2 \<and> (c - 1) div 2 \<noteq> ch' \<longrightarrow>
        \<not> lt (?xs ! (first + (c - 1) div 2)) (?xs ! (first + c))"
      proof (intro allI impI, elim conjE)
        fix c assume c: "1 \<le> c" "c < hi" "lo \<le> (c - 1) div 2" "(c - 1) div 2 \<noteq> ch'"
        have pc: "(c - 1) div 2 < c" by (rule parent_less[OF c(1)])
        then have phi: "(c - 1) div 2 < hi" using c(2) by simp
        show "\<not> lt (?xs ! (first + (c - 1) div 2)) (?xs ! (first + c))"
        proof (cases "(c - 1) div 2 = root")
          case pr: True
          then have cr: "c \<noteq> root" using pc by simp
          show ?thesis
          proof (cases "c = ch'")
            case True
            have "\<not> lt (xs ! (first + ch')) (xs ! (first + root))" by (rule swo_asym[OF swo ltr])
            then show ?thesis using True pr ch'r ch'hi by (simp add: nth)
          next
            case False
            have "\<not> lt (xs ! (first + ch')) (xs ! (first + c))" by (rule sib[OF c(1,2) pr])
            then show ?thesis using False pr cr c(2) phi by (simp add: nth)
          qed
        next
          case npr: False
          have base: "\<not> lt (xs ! (first + (c - 1) div 2)) (xs ! (first + c))"
            using c npr by (intro H1)
          show ?thesis
          proof (cases "c = root")
            case True
            then have r1: "1 \<le> root" using c(1) by simp
            have "\<not> lt (xs ! (first + (root - 1) div 2)) (xs ! (first + ch'))"
              by (rule H2[OF r1 _ ch'1 ch'hi ch'p]) (use c(3) True in simp)
            moreover have "(root - 1) div 2 \<noteq> root" "(root - 1) div 2 \<noteq> ch'"
              using parent_less[OF r1] ch'r by simp_all
            ultimately show ?thesis using True phi c(2) by (simp add: nth)
          next
            case False
            have "c \<noteq> ch'" using npr ch'p by auto
            then show ?thesis using base False npr c(4) c(2) phi by (simp add: nth)
          qed
        qed
      qed
      have H2': "1 \<le> ch' \<and> lo \<le> (ch' - 1) div 2 \<longrightarrow>
        (\<forall>c. 1 \<le> c \<and> c < hi \<and> (c - 1) div 2 = ch' \<longrightarrow>
           \<not> lt (?xs ! (first + (ch' - 1) div 2)) (?xs ! (first + c)))"
      proof (intro allI impI, elim conjE)
        fix c assume c: "1 \<le> c" "c < hi" "(c - 1) div 2 = ch'"
        have pc: "(c - 1) div 2 < c" by (rule parent_less[OF c(1)])
        then have cne: "c \<noteq> ch'" "c \<noteq> root" using c(3) ch'r by simp_all
        have "\<not> lt (xs ! (first + (c - 1) div 2)) (xs ! (first + c))"
          by (rule H1[OF c(1,2)]) (use c(3) lo' ch'r in simp_all)
        then have "\<not> lt (xs ! (first + ch')) (xs ! (first + c))" using c(3) by simp
        then show "\<not> lt (?xs ! (first + (ch' - 1) div 2)) (?xs ! (first + c))"
          using cne ch'p c(2) ch'hi ch'r by (simp add: nth)
      qed
      have x1: "ch = 2 * root + 1" by (simp add: ch_def)
      have x2: "\<not> hi \<le> ch" using False by simp
      have x3: "ch' = (if ch + 1 < hi \<and> lt (xs ! (first + ch)) (xs ! (first + ch + 1)) then ch + 1 else ch)"
        by (simp add: ch'_def)
      have x4: "\<not> \<not> lt (xs ! (first + root)) (xs ! (first + ch'))" using ltr by simp
      have ih: "heap_from lt (siftDown_loop lt ?xs hi first ch') first lo hi \<and>
            same_outside (first + lo) (first + hi) ?xs (siftDown_loop lt ?xs hi first ch')"
        by (rule 1(1)[OF x1 x2 x3 x4 swo lo' len' H1' H2'])
      show ?thesis
        unfolding eq using ih same_outside_trans[OF so] by blast
    qed
  qed
qed

lemma siftDown_func_spec:
  assumes swo: "strict_weak_order lt" and len: "first + hi \<le> length xs"
    and H: "heap_from lt xs first (lo + 1) hi"
  shows "heap_from lt (siftDown_func lt xs lo hi first) first lo hi \<and>
         same_outside (first + lo) (first + hi) xs (siftDown_func lt xs lo hi first)"
proof -
  have H1: "\<forall>c. 1 \<le> c \<and> c < hi \<and> lo \<le> (c - 1) div 2 \<and> (c - 1) div 2 \<noteq> lo \<longrightarrow>
        \<not> lt (xs ! (first + (c - 1) div 2)) (xs ! (first + c))"
    using H by (auto simp: heap_from_def)
  have H2: "1 \<le> lo \<and> lo \<le> (lo - 1) div 2 \<longrightarrow>
      (\<forall>c. 1 \<le> c \<and> c < hi \<and> (c - 1) div 2 = lo \<longrightarrow>
           \<not> lt (xs ! (first + (lo - 1) div 2)) (xs ! (first + c)))"
    using parent_less[of lo] by auto
  show ?thesis
    unfolding siftDown_func_def
    by (rule siftDown_loop_spec[OF swo order_refl len H1 H2])
qed

lemma heapify_loop_spec:
  "strict_weak_order lt \<Longrightarrow> first + hi \<le> length xs \<Longrightarrow> heap_from lt xs first (i + 1) hi \<Longrightarrow>
     heap_from lt (heapify_loop lt xs hi first i) first 0 hi \<and>
     same_outside first (first + hi) xs (heapify_loop lt xs hi first i)"
proof (induction i arbitrary: xs)
  case 0
  have "heap_from lt (siftDown_func lt xs 0 hi first) first 0 hi \<and>
        same_outside (first + 0) (first + hi) xs (siftDown_func lt xs 0 hi first)"
    by (rule siftDown_func_spec[OF 0(1,2)]) (use 0(3) in simp)
  then show ?case by simp
next
  case (Suc i)
  let ?ys = "siftDown_func lt xs (Suc i) hi first"
  have s: "heap_from lt ?ys first (Suc i) hi \<and>
        same_outside (first + Suc i) (first + hi) xs ?ys"
    by (rule siftDown_func_spec[OF Suc(2,3)]) (use Suc(4) in simp)
  from s have so0: "same_outside (first + Suc i) (first + hi) xs ?ys" by simp
  have so: "same_outside first (first + hi) xs ?ys"
    by (rule same_outside_mono[OF so0]) simp_all
  have len: "first + hi \<le> length ?ys" using Suc(3) same_outside_length[OF so] by simp
  have ih: "heap_from lt (heapify_loop lt ?ys hi first i) first 0 hi \<and>
     same_outside first (first + hi) ?ys (heapify_loop lt ?ys hi first i)"
    by (rule Suc.IH[OF Suc(2) len]) (use s in simp)
  show ?case using ih same_outside_trans[OF so] by simp
qed

lemma heap_root_max:
  assumes swo: "strict_weak_order lt" and H: "heap_from lt xs first 0 n"
  shows "k < n \<Longrightarrow> \<not> lt (xs ! first) (xs ! (first + k))"
proof (induction k rule: less_induct)
  case (less k)
  show ?case
  proof (cases "k = 0")
    case True
    then show ?thesis using swo_irrefl[OF swo] by simp
  next
    case False
    then have k1: "1 \<le> k" by simp
    have pl: "(k - 1) div 2 < k" by (rule parent_less[OF k1])
    have a: "\<not> lt (xs ! (first + (k - 1) div 2)) (xs ! (first + k))"
      using H k1 less.prems by (simp add: heap_from_def)
    have b: "\<not> lt (xs ! first) (xs ! (first + (k - 1) div 2))"
      by (rule less.IH[OF pl]) (use pl less.prems in simp)
    show ?thesis by (rule swo_le_trans[OF swo a b])
  qed
qed

lemma pop_step:
  assumes swo: "strict_weak_order lt" and len: "first + hi \<le> length xs" and ih: "i < hi"
    and H: "heap_from lt xs first 0 (i + 1)"
    and S: "sorted_range lt xs (first + i + 1) (first + hi)"
    and D: "\<forall>k m. k \<le> i \<and> i < m \<and> m < hi \<longrightarrow> \<not> lt (xs ! (first + m)) (xs ! (first + k))"
  defines "ys \<equiv> siftDown_func lt (swap xs first (first + i)) 0 i first"
  shows "heap_from lt ys first 0 i"
    and "sorted_range lt ys (first + i) (first + hi)"
    and "\<forall>k m. k < i \<and> i \<le> m \<and> m < hi \<longrightarrow> \<not> lt (ys ! (first + m)) (ys ! (first + k))"
    and "same_outside first (first + hi) xs ys"
proof -
  let ?xs = "swap xs first (first + i)"
  have fl: "first < length xs" "first + i < length xs" using len ih by simp_all
  have nth: "?xs ! (first + k) =
      (if k = 0 then xs ! (first + i) else if k = i then xs ! first else xs ! (first + k))"
    if "k < hi" for k
    using that fl len by (simp add: nth_swap)
  have Dr: "\<And>k m. k \<le> i \<Longrightarrow> i < m \<Longrightarrow> m < hi \<Longrightarrow> \<not> lt (xs ! (first + m)) (xs ! (first + k))"
    using D by blast
  have rm: "\<And>k. k < i + 1 \<Longrightarrow> \<not> lt (xs ! first) (xs ! (first + k))"
    by (rule heap_root_max[OF swo H])
  have H': "heap_from lt ?xs first (0 + 1) i"
    unfolding heap_from_def
  proof (intro allI impI, elim conjE)
    fix c assume c: "1 \<le> c" "c < i" "0 + 1 \<le> (c - 1) div 2"
    have pl: "(c - 1) div 2 < c" by (rule parent_less[OF c(1)])
    have "\<not> lt (xs ! (first + (c - 1) div 2)) (xs ! (first + c))"
      using H c by (simp add: heap_from_def)
    then show "\<not> lt (?xs ! (first + (c - 1) div 2)) (?xs ! (first + c))"
      using c pl ih by (simp add: nth)
  qed
  have len': "first + i \<le> length ?xs" using len ih by simp
  have sd: "heap_from lt ys first 0 i \<and> same_outside (first + 0) (first + i) ?xs ys"
    unfolding ys_def by (rule siftDown_func_spec[OF swo len' H'])
  then have so2: "same_outside first (first + i) ?xs ys" by simp
  show "heap_from lt ys first 0 i" using sd by simp
  have so1: "same_outside first (first + hi) xs ?xs"
    by (rule same_outside_swap) (use ih len in simp_all)
  have so2': "same_outside first (first + hi) ?xs ys"
    by (rule same_outside_mono[OF so2]) (use ih in simp_all)
  show "same_outside first (first + hi) xs ys"
    by (rule same_outside_trans[OF so1 so2'])
  have out: "ys ! (first + m) = ?xs ! (first + m)" if "i \<le> m" "m < hi" for m
    by (rule same_outside_nth[OF so2]) (use that len in simp_all)
  have elems: "\<forall>k. first \<le> k \<and> k < first + i \<longrightarrow> P (ys ! k)"
    if "\<forall>k. first \<le> k \<and> k < first + i \<longrightarrow> P (?xs ! k)" for P
    by (rule same_outside_range_all[OF so2 _ len' that]) simp
  show "sorted_range lt ys (first + i) (first + hi)"
    unfolding sorted_range_def
  proof (intro allI impI, elim conjE)
    fix p q assume pq: "first + i \<le> p" "p < q" "q < first + hi"
    obtain p' where p': "p = first + p'" "i \<le> p'" "p' < hi"
      using pq by (metis add_diff_inverse_nat add_leD1 nat_add_left_cancel_le
          nat_add_left_cancel_less not_less order_less_trans)
    obtain q' where q': "q = first + q'" "i < q'" "q' < hi"
      using pq p' by (metis add_diff_inverse_nat add_leD1 nat_add_left_cancel_less not_less
          order_le_less_trans order_less_trans)
    have yq: "ys ! q = xs ! (first + q')"
      using out[of q'] q' ih by (simp add: nth)
    show "\<not> lt (ys ! q) (ys ! p)"
    proof (cases "p' = i")
      case True
      then have "ys ! p = xs ! first" using out[of p'] p' ih by (simp add: nth)
      moreover have "\<not> lt (xs ! (first + q')) (xs ! (first + 0))"
        by (rule Dr) (use q' in simp_all)
      ultimately show ?thesis using yq by simp
    next
      case False
      then have "ys ! p = xs ! (first + p')" using out[of p'] p' ih by (simp add: nth)
      moreover have "\<not> lt (xs ! (first + q')) (xs ! (first + p'))"
        using S p' q' pq False by (simp add: sorted_range_def)
      ultimately show ?thesis using yq by simp
    qed
  qed
  show "\<forall>k m. k < i \<and> i \<le> m \<and> m < hi \<longrightarrow> \<not> lt (ys ! (first + m)) (ys ! (first + k))"
  proof (intro allI impI, elim conjE)
    fix k m assume km: "k < i" "i \<le> m" "m < hi"
    have "\<forall>j. first \<le> j \<and> j < first + i \<longrightarrow> \<not> lt (?xs ! (first + m)) (?xs ! j)"
    proof (intro allI impI, elim conjE)
      fix j assume j: "first \<le> j" "j < first + i"
      obtain j' where j': "j = first + j'" "j' < i"
        using j by (metis add_diff_inverse_nat nat_add_left_cancel_less not_less)
      show "\<not> lt (?xs ! (first + m)) (?xs ! j)"
      proof (cases "m = i")
        case True
        have "\<not> lt (xs ! first) (xs ! (first + i))" by (rule rm) simp
        moreover have "\<not> lt (xs ! first) (xs ! (first + j'))" by (rule rm) (use j' in simp)
        ultimately show ?thesis using True j' ih by (simp add: nth)
      next
        case False
        then have mi: "i < m" using km by simp
        have "\<not> lt (xs ! (first + m)) (xs ! (first + i))" by (rule Dr) (use mi km in simp_all)
        moreover have "\<not> lt (xs ! (first + m)) (xs ! (first + j'))"
          by (rule Dr) (use mi km j' in simp_all)
        ultimately show ?thesis using False j' ih km by (simp add: nth)
      qed
    qed
    then have "\<forall>j. first \<le> j \<and> j < first + i \<longrightarrow> \<not> lt (?xs ! (first + m)) (ys ! j)"
      by (rule elems)
    then have "\<not> lt (?xs ! (first + m)) (ys ! (first + k))" using km by simp
    then show "\<not> lt (ys ! (first + m)) (ys ! (first + k))" using out[OF km(2,3)] by simp
  qed
qed

lemma pop_loop_spec:
  "strict_weak_order lt \<Longrightarrow> first + hi \<le> length xs \<Longrightarrow> i < hi \<Longrightarrow>
   heap_from lt xs first 0 (i + 1) \<Longrightarrow>
   sorted_range lt xs (first + i + 1) (first + hi) \<Longrightarrow>
   (\<forall>k m. k \<le> i \<and> i < m \<and> m < hi \<longrightarrow> \<not> lt (xs ! (first + m)) (xs ! (first + k))) \<Longrightarrow>
   sorted_range lt (pop_loop lt xs 0 first i) first (first + hi) \<and>
   same_outside first (first + hi) xs (pop_loop lt xs 0 first i)"
proof (induction i arbitrary: xs)
  case 0
  note st = pop_step[OF 0(1,2,3,4,5,6)]
  show ?case using st(2,4) by simp
next
  case (Suc i)
  let ?ys = "siftDown_func lt (swap xs first (first + Suc i)) 0 (Suc i) first"
  note st = pop_step[OF Suc(2,3,4,5,6,7)]
  have len: "first + hi \<le> length ?ys" using Suc(3) same_outside_length[OF st(4)] by simp
  have ih: "i < hi" using Suc(4) by simp
  have H: "heap_from lt ?ys first 0 (i + 1)" using st(1) by simp
  have S: "sorted_range lt ?ys (first + i + 1) (first + hi)" using st(2) by simp
  have D: "\<forall>k m. k \<le> i \<and> i < m \<and> m < hi \<longrightarrow> \<not> lt (?ys ! (first + m)) (?ys ! (first + k))"
    using st(3) by (simp add: less_Suc_eq_le Suc_le_eq)
  have r: "sorted_range lt (pop_loop lt ?ys 0 first i) first (first + hi) \<and>
   same_outside first (first + hi) ?ys (pop_loop lt ?ys 0 first i)"
    by (rule Suc.IH[OF Suc(2) len ih H S D])
  show ?case using r same_outside_trans[OF st(4)] by simp
qed

lemma heapSort_func_spec:
  assumes swo: "strict_weak_order lt" and ab: "a < b" "b \<le> length xs"
  shows "sorted_range lt (heapSort_func lt xs a b) a b \<and>
         same_outside a b xs (heapSort_func lt xs a b)"
proof -
  define hi where "hi = b - a"
  have hi: "a + hi = b" "1 \<le> hi" using ab by (simp_all add: hi_def)
  let ?xs1 = "heapify_loop lt xs hi a ((hi - 1) div 2)"
  have len: "a + hi \<le> length xs" using ab hi by simp
  have H0: "heap_from lt xs a ((hi - 1) div 2 + 1) hi"
    unfolding heap_from_def
  proof (intro allI impI, elim conjE)
    fix c :: nat assume c: "1 \<le> c" "c < hi" "(hi - 1) div 2 + 1 \<le> (c - 1) div 2"
    then have False by presburger
    then show "\<not> lt (xs ! (a + (c - 1) div 2)) (xs ! (a + c))" ..
  qed
  have hp: "heap_from lt ?xs1 a 0 hi \<and> same_outside a (a + hi) xs ?xs1"
    by (rule heapify_loop_spec[OF swo len H0])
  then have so1: "same_outside a (a + hi) xs ?xs1" by simp
  have len1: "a + hi \<le> length ?xs1" using len same_outside_length[OF so1] by simp
  have i: "hi - 1 < hi" using hi by simp
  have H: "heap_from lt ?xs1 a 0 (hi - 1 + 1)" using hp hi by simp
  have S: "sorted_range lt ?xs1 (a + (hi - 1) + 1) (a + hi)"
    by (auto simp: sorted_range_def)
  have D: "\<forall>k m. k \<le> hi - 1 \<and> hi - 1 < m \<and> m < hi \<longrightarrow> \<not> lt (?xs1 ! (a + m)) (?xs1 ! (a + k))"
    by auto
  have r: "sorted_range lt (pop_loop lt ?xs1 0 a (hi - 1)) a (a + hi) \<and>
   same_outside a (a + hi) ?xs1 (pop_loop lt ?xs1 0 a (hi - 1))"
    by (rule pop_loop_spec[OF swo len1 i H S D])
  have eq: "heapSort_func lt xs a b = pop_loop lt ?xs1 0 a (hi - 1)"
    using hi by (simp add: heapSort_func_def Let_def hi_def)
  show ?thesis
    unfolding eq using r same_outside_trans[OF so1] hi by auto
qed

lemma medianOfThree_func_spec:
  assumes swo: "strict_weak_order lt"
    and r: "lo \<le> m0" "m0 < hi" "lo \<le> m1" "m1 < hi" "lo \<le> m2" "m2 < hi" "hi \<le> length xs"
  shows "same_outside lo hi xs (medianOfThree_func lt xs m1 m0 m2)"
    and "m0 \<noteq> m1 \<Longrightarrow> m0 \<noteq> m2 \<Longrightarrow> m1 \<noteq> m2 \<Longrightarrow>
         \<not> lt (medianOfThree_func lt xs m1 m0 m2 ! m2) (medianOfThree_func lt xs m1 m0 m2 ! m1)"
proof -
  define xs1 where "xs1 = (if lt (xs ! m1) (xs ! m0) then swap xs m1 m0 else xs)"
  define xs2 where "xs2 = swap xs1 m2 m1"
  have ml: "m0 < length xs" "m1 < length xs" "m2 < length xs" using r by simp_all
  have so1: "same_outside lo hi xs xs1"
    unfolding xs1_def using r by (simp add: same_outside_swap)
  have l1: "length xs1 = length xs" by (rule same_outside_length[OF so1])
  have so2: "same_outside lo hi xs1 xs2"
    unfolding xs2_def by (rule same_outside_swap) (use r l1 in simp_all)
  have l2: "length xs2 = length xs" using same_outside_length[OF so2] l1 by simp
  have so3: "same_outside lo hi xs2 (swap xs2 m1 m0)"
    by (rule same_outside_swap) (use r l2 in simp_all)
  have eq: "medianOfThree_func lt xs m1 m0 m2 =
     (if lt (xs1 ! m2) (xs1 ! m1) then
        (if lt (xs2 ! m1) (xs2 ! m0) then swap xs2 m1 m0 else xs2)
      else xs1)"
    by (simp add: medianOfThree_func_def xs1_def xs2_def Let_def)
  show "same_outside lo hi xs (medianOfThree_func lt xs m1 m0 m2)"
    unfolding eq
    using so1 same_outside_trans[OF so1 so2]
      same_outside_trans[OF same_outside_trans[OF so1 so2] so3]
    by simp
  assume d: "m0 \<noteq> m1" "m0 \<noteq> m2" "m1 \<noteq> m2"
  have A: "\<not> lt (xs1 ! m1) (xs1 ! m0)"
    unfolding xs1_def using ml d swo_asym[OF swo, of "xs ! m1" "xs ! m0"]
    by (simp add: nth_swap)
  show "\<not> lt (medianOfThree_func lt xs m1 m0 m2 ! m2) (medianOfThree_func lt xs m1 m0 m2 ! m1)"
  proof (cases "lt (xs1 ! m2) (xs1 ! m1)")
    case False
    then show ?thesis by (simp add: eq)
  next
    case True
    have x2: "xs2 ! m1 = xs1 ! m2" "xs2 ! m2 = xs1 ! m1" "xs2 ! m0 = xs1 ! m0"
      unfolding xs2_def using ml d l1 by (simp_all add: nth_swap)
    show ?thesis
    proof (cases "lt (xs2 ! m1) (xs2 ! m0)")
      case False
      have "\<not> lt (xs1 ! m1) (xs1 ! m2)" by (rule swo_asym[OF swo True])
      then show ?thesis using True False x2 by (simp add: eq)
    next
      case T2: True
      have "swap xs2 m1 m0 ! m2 = xs2 ! m2" "swap xs2 m1 m0 ! m1 = xs2 ! m0"
        using ml d l2 by (simp_all add: nth_swap)
      then show ?thesis using True T2 x2 A by (simp add: eq)
    qed
  qed
qed

lemma scan_less_spec:
  "a \<le> c \<Longrightarrow>
   a \<le> scan_less lt xs pivot a c \<and> scan_less lt xs pivot a c \<le> c \<and>
   (\<forall>k. a \<le> k \<and> k < scan_less lt xs pivot a c \<longrightarrow> lt (xs ! k) (xs ! pivot)) \<and>
   (scan_less lt xs pivot a c < c \<longrightarrow> \<not> lt (xs ! scan_less lt xs pivot a c) (xs ! pivot))"
proof (induction lt xs pivot a c rule: scan_less.induct)
  case (1 lt xs pivot a c)
  show ?case
  proof (cases "a < c \<and> lt (xs ! a) (xs ! pivot)")
    case True
    have eq: "scan_less lt xs pivot a c = scan_less lt xs pivot (a + 1) c"
      using True by (subst scan_less.simps) simp
    have ih: "a + 1 \<le> scan_less lt xs pivot (a + 1) c \<and> scan_less lt xs pivot (a + 1) c \<le> c \<and>
      (\<forall>k. a + 1 \<le> k \<and> k < scan_less lt xs pivot (a + 1) c \<longrightarrow> lt (xs ! k) (xs ! pivot)) \<and>
      (scan_less lt xs pivot (a + 1) c < c \<longrightarrow> \<not> lt (xs ! scan_less lt xs pivot (a + 1) c) (xs ! pivot))"
      by (rule 1(1)[OF True]) (use True in simp)
    have "\<forall>k. a \<le> k \<and> k < scan_less lt xs pivot (a + 1) c \<longrightarrow> lt (xs ! k) (xs ! pivot)"
    proof (intro allI impI, elim conjE)
      fix k assume k: "a \<le> k" "k < scan_less lt xs pivot (a + 1) c"
      show "lt (xs ! k) (xs ! pivot)"
      proof (cases "k = a")
        case True
        then show ?thesis using \<open>a < c \<and> lt (xs ! a) (xs ! pivot)\<close> by simp
      next
        case False
        then show ?thesis using ih k by simp
      qed
    qed
    then show ?thesis unfolding eq using ih by simp
  next
    case False
    have eq: "scan_less lt xs pivot a c = a"
      using False by (subst scan_less.simps) auto
    show ?thesis unfolding eq using False 1(2) by auto
  qed
qed

lemma scan_le_spec:
  "b \<le> c \<Longrightarrow>
   b \<le> scan_le lt xs pivot b c \<and> scan_le lt xs pivot b c \<le> c \<and>
   (\<forall>k. b \<le> k \<and> k < scan_le lt xs pivot b c \<longrightarrow> \<not> lt (xs ! pivot) (xs ! k)) \<and>
   (scan_le lt xs pivot b c < c \<longrightarrow> lt (xs ! pivot) (xs ! scan_le lt xs pivot b c))"
proof (induction lt xs pivot b c rule: scan_le.induct)
  case (1 lt xs pivot b c)
  show ?case
  proof (cases "b < c \<and> \<not> lt (xs ! pivot) (xs ! b)")
    case True
    have eq: "scan_le lt xs pivot b c = scan_le lt xs pivot (b + 1) c"
      using True by (subst scan_le.simps) simp
    have ih: "b + 1 \<le> scan_le lt xs pivot (b + 1) c \<and> scan_le lt xs pivot (b + 1) c \<le> c \<and>
      (\<forall>k. b + 1 \<le> k \<and> k < scan_le lt xs pivot (b + 1) c \<longrightarrow> \<not> lt (xs ! pivot) (xs ! k)) \<and>
      (scan_le lt xs pivot (b + 1) c < c \<longrightarrow> lt (xs ! pivot) (xs ! scan_le lt xs pivot (b + 1) c))"
      by (rule 1(1)[OF True]) (use True in simp)
    have "\<forall>k. b \<le> k \<and> k < scan_le lt xs pivot (b + 1) c \<longrightarrow> \<not> lt (xs ! pivot) (xs ! k)"
    proof (intro allI impI, elim conjE)
      fix k assume k: "b \<le> k" "k < scan_le lt xs pivot (b + 1) c"
      show "\<not> lt (xs ! pivot) (xs ! k)"
      proof (cases "k = b")
        case True
        then show ?thesis using \<open>b < c \<and> \<not> lt (xs ! pivot) (xs ! b)\<close> by simp
      next
        case False
        then show ?thesis using ih k by simp
      qed
    qed
    then show ?thesis unfolding eq using ih by simp
  next
    case False
    have eq: "scan_le lt xs pivot b c = b"
      using False by (subst scan_le.simps) auto
    show ?thesis unfolding eq using False 1(2) by auto
  qed
qed

lemma scan_greater_spec:
  "b \<le> c \<Longrightarrow>
   b \<le> scan_greater lt xs pivot b c \<and> scan_greater lt xs pivot b c \<le> c \<and>
   (\<forall>k. scan_greater lt xs pivot b c \<le> k \<and> k < c \<longrightarrow> lt (xs ! pivot) (xs ! k)) \<and>
   (b < scan_greater lt xs pivot b c \<longrightarrow> \<not> lt (xs ! pivot) (xs ! (scan_greater lt xs pivot b c - 1)))"
proof (induction lt xs pivot b c rule: scan_greater.induct)
  case (1 lt xs pivot b c)
  show ?case
  proof (cases "b < c \<and> lt (xs ! pivot) (xs ! (c - 1))")
    case True
    have eq: "scan_greater lt xs pivot b c = scan_greater lt xs pivot b (c - 1)"
      using True by (subst scan_greater.simps) simp
    have ih: "b \<le> scan_greater lt xs pivot b (c - 1) \<and> scan_greater lt xs pivot b (c - 1) \<le> c - 1 \<and>
      (\<forall>k. scan_greater lt xs pivot b (c - 1) \<le> k \<and> k < c - 1 \<longrightarrow> lt (xs ! pivot) (xs ! k)) \<and>
      (b < scan_greater lt xs pivot b (c - 1) \<longrightarrow>
         \<not> lt (xs ! pivot) (xs ! (scan_greater lt xs pivot b (c - 1) - 1)))"
      by (rule 1(1)[OF True]) (use True in auto)
    have "\<forall>k. scan_greater lt xs pivot b (c - 1) \<le> k \<and> k < c \<longrightarrow> lt (xs ! pivot) (xs ! k)"
    proof (intro allI impI, elim conjE)
      fix k assume k: "scan_greater lt xs pivot b (c - 1) \<le> k" "k < c"
      show "lt (xs ! pivot) (xs ! k)"
      proof (cases "k = c - 1")
        case True
        then show ?thesis using \<open>b < c \<and> lt (xs ! pivot) (xs ! (c - 1))\<close> by simp
      next
        case False
        then have "k < c - 1" using k by simp
        then show ?thesis using ih k by auto
      qed
    qed
    moreover have "scan_greater lt xs pivot b (c - 1) \<le> c" using ih by auto
    ultimately show ?thesis unfolding eq using ih by auto
  next
    case False
    have eq: "scan_greater lt xs pivot b c = c"
      using False by (subst scan_greater.simps) auto
    show ?thesis unfolding eq using False 1(2) by auto
  qed
qed

lemma scan_ge_down_spec:
  "a \<le> b \<Longrightarrow>
   a \<le> scan_ge_down lt xs pivot a b \<and> scan_ge_down lt xs pivot a b \<le> b \<and>
   (\<forall>k. scan_ge_down lt xs pivot a b \<le> k \<and> k < b \<longrightarrow> \<not> lt (xs ! k) (xs ! pivot)) \<and>
   (a < scan_ge_down lt xs pivot a b \<longrightarrow> lt (xs ! (scan_ge_down lt xs pivot a b - 1)) (xs ! pivot))"
proof (induction lt xs pivot a b rule: scan_ge_down.induct)
  case (1 lt xs pivot a b)
  show ?case
  proof (cases "a < b \<and> \<not> lt (xs ! (b - 1)) (xs ! pivot)")
    case True
    have eq: "scan_ge_down lt xs pivot a b = scan_ge_down lt xs pivot a (b - 1)"
      using True by (subst scan_ge_down.simps) simp
    have ih: "a \<le> scan_ge_down lt xs pivot a (b - 1) \<and> scan_ge_down lt xs pivot a (b - 1) \<le> b - 1 \<and>
      (\<forall>k. scan_ge_down lt xs pivot a (b - 1) \<le> k \<and> k < b - 1 \<longrightarrow> \<not> lt (xs ! k) (xs ! pivot)) \<and>
      (a < scan_ge_down lt xs pivot a (b - 1) \<longrightarrow>
         lt (xs ! (scan_ge_down lt xs pivot a (b - 1) - 1)) (xs ! pivot))"
      by (rule 1(1)[OF True]) (use True in auto)
    have "\<forall>k. scan_ge_down lt xs pivot a (b - 1) \<le> k \<and> k < b \<longrightarrow> \<not> lt (xs ! k) (xs ! pivot)"
    proof (intro allI impI, elim conjE)
      fix k assume k: "scan_ge_down lt xs pivot a (b - 1) \<le> k" "k < b"
      show "\<not> lt (xs ! k) (xs ! pivot)"
      proof (cases "k = b - 1")
        case True
        then show ?thesis using \<open>a < b \<and> \<not> lt (xs ! (b - 1)) (xs ! pivot)\<close> by simp
      next
        case False
        then have "k < b - 1" using k by simp
        then show ?thesis using ih k by auto
      qed
    qed
    moreover have "scan_ge_down lt xs pivot a (b - 1) \<le> b" using ih by auto
    ultimately show ?thesis unfolding eq using ih by auto
  next
    case False
    have eq: "scan_ge_down lt xs pivot a b = b"
      using False by (subst scan_ge_down.simps) auto
    show ?thesis unfolding eq using False 1(2) by auto
  qed
qed

lemma partition_loop_spec:
  "strict_weak_order lt \<Longrightarrow> pivot < b \<Longrightarrow> b \<le> c \<Longrightarrow> c \<le> hi \<Longrightarrow> hi \<le> length xs \<Longrightarrow>
   (\<forall>k. pivot < k \<and> k < b \<longrightarrow> \<not> lt (xs ! pivot) (xs ! k)) \<Longrightarrow>
   (\<forall>k. c \<le> k \<and> k < hi \<longrightarrow> \<not> lt (xs ! k) (xs ! pivot)) \<Longrightarrow>
   partition_loop lt xs pivot b c = (ys, b', c') \<Longrightarrow>
   b' = c' \<and> b \<le> b' \<and> b' \<le> c \<and> same_outside b c xs ys \<and>
   (\<forall>k. pivot < k \<and> k < b' \<longrightarrow> \<not> lt (ys ! pivot) (ys ! k)) \<and>
   (\<forall>k. c' \<le> k \<and> k < hi \<longrightarrow> \<not> lt (ys ! k) (ys ! pivot))"
proof (induction lt xs pivot b c rule: partition_loop.induct)
  case (1 lt xs pivot b c)
  note swo = 1(2)
  have L: "\<And>k. pivot < k \<Longrightarrow> k < b \<Longrightarrow> \<not> lt (xs ! pivot) (xs ! k)" using 1(7) by blast
  have G: "\<And>k. c \<le> k \<Longrightarrow> k < hi \<Longrightarrow> \<not> lt (xs ! k) (xs ! pivot)" using 1(8) by blast
  define b1 where "b1 = scan_le lt xs pivot b c"
  define c1 where "c1 = scan_greater lt xs pivot b1 c"
  have sb0: "b \<le> b1 \<and> b1 \<le> c \<and>
   (\<forall>k. b \<le> k \<and> k < b1 \<longrightarrow> \<not> lt (xs ! pivot) (xs ! k)) \<and>
   (b1 < c \<longrightarrow> lt (xs ! pivot) (xs ! b1))"
    unfolding b1_def by (rule scan_le_spec[OF 1(4)])
  then have sb: "b \<le> b1" "b1 \<le> c" by simp_all
  have sbL: "\<And>k. b \<le> k \<Longrightarrow> k < b1 \<Longrightarrow> \<not> lt (xs ! pivot) (xs ! k)" using sb0 by blast
  have sbS: "b1 < c \<Longrightarrow> lt (xs ! pivot) (xs ! b1)" using sb0 by blast
  have sc0: "b1 \<le> c1 \<and> c1 \<le> c \<and>
   (\<forall>k. c1 \<le> k \<and> k < c \<longrightarrow> lt (xs ! pivot) (xs ! k)) \<and>
   (b1 < c1 \<longrightarrow> \<not> lt (xs ! pivot) (xs ! (c1 - 1)))"
    unfolding c1_def by (rule scan_greater_spec[OF sb(2)])
  then have sc: "b1 \<le> c1" "c1 \<le> c" by simp_all
  have scG: "\<And>k. c1 \<le> k \<Longrightarrow> k < c \<Longrightarrow> lt (xs ! pivot) (xs ! k)" using sc0 by blast
  have scS: "b1 < c1 \<Longrightarrow> \<not> lt (xs ! pivot) (xs ! (c1 - 1))" using sc0 by blast
  have step: "partition_loop lt xs pivot b c =
     (if b1 \<ge> c1 then (xs, b1, c1)
      else partition_loop lt (swap xs b1 (c1 - 1)) pivot (b1 + 1) (c1 - 1))"
    unfolding c1_def b1_def by (subst partition_loop.simps) (simp add: Let_def)
  have L1: "\<not> lt (xs ! pivot) (xs ! k)" if "pivot < k" "k < b1" for k
  proof (cases "k < b")
    case True
    then show ?thesis using that by (intro L)
  next
    case False
    then show ?thesis using that by (intro sbL) simp_all
  qed
  have G1: "\<not> lt (xs ! k) (xs ! pivot)" if "c1 \<le> k" "k < hi" for k
  proof (cases "k < c")
    case True
    then have "lt (xs ! pivot) (xs ! k)" using that by (intro scG)
    then show ?thesis by (rule swo_asym[OF swo])
  next
    case False
    then show ?thesis using that by (intro G) simp_all
  qed
  show ?case
  proof (cases "b1 \<ge> c1")
    case True
    then have "(ys, b', c') = (xs, b1, c1)" using step 1(9) by simp
    then have e: "ys = xs" "b' = b1" "c' = c1" by simp_all
    have "b1 = c1" using True sc by simp
    then show ?thesis using e sb L1 G1 by simp
  next
    case False
    then have lt1: "b1 < c1" by simp
    then have b1c: "b1 < c" using sc by simp
    have gt: "lt (xs ! pivot) (xs ! b1)" by (rule sbS[OF b1c])
    have le: "\<not> lt (xs ! pivot) (xs ! (c1 - 1))" by (rule scS[OF lt1])
    have ne: "b1 \<noteq> c1 - 1" using gt le by auto
    then have lt2: "b1 + 1 \<le> c1 - 1" using lt1 by simp
    let ?xs = "swap xs b1 (c1 - 1)"
    have il: "b1 < length xs" "c1 - 1 < length xs" "pivot < length xs"
      using lt1 sc sb 1(3,5,6) by simp_all
    have nth: "?xs ! k = (if k = b1 then xs ! (c1 - 1) else if k = c1 - 1 then xs ! b1 else xs ! k)"
      if "k < length xs" for k
      using that il by (simp add: nth_swap)
    have pn: "pivot \<noteq> b1" "pivot \<noteq> c1 - 1" using sb 1(3) lt1 by simp_all
    have pv: "?xs ! pivot = xs ! pivot"
      using il pn by (simp add: nth_swap)
    have so1: "same_outside b c xs ?xs"
      by (rule same_outside_swap) (use sb sc lt1 1(5,6) in simp_all)
    have L': "\<forall>k. pivot < k \<and> k < b1 + 1 \<longrightarrow> \<not> lt (?xs ! pivot) (?xs ! k)"
    proof (intro allI impI, elim conjE)
      fix k assume k: "pivot < k" "k < b1 + 1"
      have kl: "k < length xs" using k il by simp
      show "\<not> lt (?xs ! pivot) (?xs ! k)"
      proof (cases "k = b1")
        case True
        then show ?thesis using le kl pv il by (simp add: nth_swap)
      next
        case False
        then have "k < b1" using k by simp
        then have "\<not> lt (xs ! pivot) (xs ! k)" using k by (intro L1)
        moreover have "k \<noteq> c1 - 1" using \<open>k < b1\<close> lt1 by simp
        ultimately show ?thesis using False kl pv il by (simp add: nth_swap)
      qed
    qed
    have G': "\<forall>k. c1 - 1 \<le> k \<and> k < hi \<longrightarrow> \<not> lt (?xs ! k) (?xs ! pivot)"
    proof (intro allI impI, elim conjE)
      fix k assume k: "c1 - 1 \<le> k" "k < hi"
      have kl: "k < length xs" using k 1(6) by simp
      show "\<not> lt (?xs ! k) (?xs ! pivot)"
      proof (cases "k = c1 - 1")
        case True
        have "\<not> lt (xs ! b1) (xs ! pivot)" by (rule swo_asym[OF swo gt])
        then show ?thesis using True ne kl pv il by (simp add: nth_swap)
      next
        case False
        then have "c1 \<le> k" using k by simp
        then have "\<not> lt (xs ! k) (xs ! pivot)" using k by (intro G1)
        moreover have "k \<noteq> b1" using \<open>c1 \<le> k\<close> lt1 by simp
        ultimately show ?thesis using False kl pv il by (simp add: nth_swap)
      qed
    qed
    have x3: "\<not> c1 \<le> b1" using lt1 by simp
    have p1: "pivot < b1 + 1" using 1(3) sb by simp
    have p3: "c1 - 1 \<le> hi" using sc 1(5) by simp
    have p4: "hi \<le> length ?xs" using 1(6) by simp
    have r: "partition_loop lt ?xs pivot (b1 + 1) (c1 - 1) = (ys, b', c')"
      using step False 1(9) by simp
    have ih: "b' = c' \<and> b1 + 1 \<le> b' \<and> b' \<le> c1 - 1 \<and> same_outside (b1 + 1) (c1 - 1) ?xs ys \<and>
      (\<forall>k. pivot < k \<and> k < b' \<longrightarrow> \<not> lt (ys ! pivot) (ys ! k)) \<and>
      (\<forall>k. c' \<le> k \<and> k < hi \<longrightarrow> \<not> lt (ys ! k) (ys ! pivot))"
      by (rule 1(1)[OF b1_def c1_def x3 swo p1 lt2 p3 p4 L' G' r])
    then have so2: "same_outside (b1 + 1) (c1 - 1) ?xs ys" by simp
    have so2': "same_outside b c ?xs ys"
      by (rule same_outside_mono[OF so2]) (use sb sc in simp_all)
    have "same_outside b c xs ys" by (rule same_outside_trans[OF so1 so2'])
    moreover have "b \<le> b'" "b' \<le> c" using ih sb sc by auto
    ultimately show ?thesis using ih by simp
  qed
qed

lemma protect_loop_spec:
  "strict_weak_order lt \<Longrightarrow> pivot < a \<Longrightarrow> a \<le> b \<Longrightarrow> b \<le> length xs \<Longrightarrow>
   (\<forall>k. pivot < k \<and> k < a \<longrightarrow> lt (xs ! k) (xs ! pivot)) \<Longrightarrow>
   (\<forall>k. pivot < k \<and> k < b \<longrightarrow> \<not> lt (xs ! pivot) (xs ! k)) \<Longrightarrow>
   protect_loop lt xs pivot a b = (ys, a', b') \<Longrightarrow>
   a \<le> b' \<and> b' \<le> b \<and> same_outside a b xs ys \<and>
   (\<forall>k. pivot < k \<and> k < b' \<longrightarrow> lt (ys ! k) (ys ! pivot)) \<and>
   (\<forall>k. b' \<le> k \<and> k < b \<longrightarrow> \<not> lt (ys ! k) (ys ! pivot) \<and> \<not> lt (ys ! pivot) (ys ! k))"
proof (induction lt xs pivot a b rule: protect_loop.induct)
  case (1 lt xs pivot a b)
  note swo = 1(2)
  have A: "\<And>k. pivot < k \<Longrightarrow> k < a \<Longrightarrow> lt (xs ! k) (xs ! pivot)" using 1(6) by blast
  have L: "\<And>k. pivot < k \<Longrightarrow> k < b \<Longrightarrow> \<not> lt (xs ! pivot) (xs ! k)" using 1(7) by blast
  define b1 where "b1 = scan_ge_down lt xs pivot a b"
  define a1 where "a1 = scan_less lt xs pivot a b1"
  have sb0: "a \<le> b1 \<and> b1 \<le> b \<and>
   (\<forall>k. b1 \<le> k \<and> k < b \<longrightarrow> \<not> lt (xs ! k) (xs ! pivot)) \<and>
   (a < b1 \<longrightarrow> lt (xs ! (b1 - 1)) (xs ! pivot))"
    unfolding b1_def by (rule scan_ge_down_spec[OF 1(4)])
  then have sb: "a \<le> b1" "b1 \<le> b" by simp_all
  have sbE: "\<And>k. b1 \<le> k \<Longrightarrow> k < b \<Longrightarrow> \<not> lt (xs ! k) (xs ! pivot)" using sb0 by blast
  have sbS: "a < b1 \<Longrightarrow> lt (xs ! (b1 - 1)) (xs ! pivot)" using sb0 by blast
  have sa0: "a \<le> a1 \<and> a1 \<le> b1 \<and>
   (\<forall>k. a \<le> k \<and> k < a1 \<longrightarrow> lt (xs ! k) (xs ! pivot)) \<and>
   (a1 < b1 \<longrightarrow> \<not> lt (xs ! a1) (xs ! pivot))"
    unfolding a1_def by (rule scan_less_spec[OF sb(1)])
  then have sa: "a \<le> a1" "a1 \<le> b1" by simp_all
  have saA: "\<And>k. a \<le> k \<Longrightarrow> k < a1 \<Longrightarrow> lt (xs ! k) (xs ! pivot)" using sa0 by blast
  have saS: "a1 < b1 \<Longrightarrow> \<not> lt (xs ! a1) (xs ! pivot)" using sa0 by blast
  have step: "protect_loop lt xs pivot a b =
     (if a1 \<ge> b1 then (xs, a1, b1)
      else protect_loop lt (swap xs a1 (b1 - 1)) pivot (a1 + 1) (b1 - 1))"
    unfolding a1_def b1_def by (subst protect_loop.simps) (simp add: Let_def)
  have A1: "lt (xs ! k) (xs ! pivot)" if "pivot < k" "k < a1" for k
  proof (cases "k < a")
    case True
    then show ?thesis using that by (intro A)
  next
    case False
    then show ?thesis using that by (intro saA) simp_all
  qed
  have E1: "\<not> lt (xs ! k) (xs ! pivot) \<and> \<not> lt (xs ! pivot) (xs ! k)" if "b1 \<le> k" "k < b" for k
  proof
    show "\<not> lt (xs ! k) (xs ! pivot)" using that by (intro sbE)
    show "\<not> lt (xs ! pivot) (xs ! k)" by (rule L) (use that sb 1(3) in simp_all)
  qed
  show ?case
  proof (cases "a1 \<ge> b1")
    case True
    then have "(ys, a', b') = (xs, a1, b1)" using step 1(8) by simp
    then have e: "ys = xs" "a' = a1" "b' = b1" by simp_all
    have "a1 = b1" using True sa by simp
    then show ?thesis using e sb A1 E1 by simp
  next
    case False
    then have lt1: "a1 < b1" by simp
    then have ab1: "a < b1" using sa by simp
    have ge: "\<not> lt (xs ! a1) (xs ! pivot)" by (rule saS[OF lt1])
    have ls: "lt (xs ! (b1 - 1)) (xs ! pivot)" by (rule sbS[OF ab1])
    have ne: "a1 \<noteq> b1 - 1" using ge ls by auto
    then have lt2: "a1 + 1 \<le> b1 - 1" using lt1 by simp
    let ?xs = "swap xs a1 (b1 - 1)"
    have il: "a1 < length xs" "b1 - 1 < length xs" "pivot < length xs"
      using lt1 sa sb 1(3,5) by simp_all
    have pn: "pivot \<noteq> a1" "pivot \<noteq> b1 - 1" using sa 1(3) lt1 by simp_all
    have pv: "?xs ! pivot = xs ! pivot"
      using il pn by (simp add: nth_swap)
    have so1: "same_outside a b xs ?xs"
      by (rule same_outside_swap) (use sb sa lt1 1(5) in simp_all)
    have A': "\<forall>k. pivot < k \<and> k < a1 + 1 \<longrightarrow> lt (?xs ! k) (?xs ! pivot)"
    proof (intro allI impI, elim conjE)
      fix k assume k: "pivot < k" "k < a1 + 1"
      have kl: "k < length xs" using k il by simp
      show "lt (?xs ! k) (?xs ! pivot)"
      proof (cases "k = a1")
        case True
        then show ?thesis using ls kl pv il by (simp add: nth_swap)
      next
        case False
        then have "k < a1" using k by simp
        then have "lt (xs ! k) (xs ! pivot)" using k by (intro A1)
        moreover have "k \<noteq> b1 - 1" using \<open>k < a1\<close> lt1 by simp
        ultimately show ?thesis using False kl pv il by (simp add: nth_swap)
      qed
    qed
    have L': "\<forall>k. pivot < k \<and> k < b1 - 1 \<longrightarrow> \<not> lt (?xs ! pivot) (?xs ! k)"
    proof (intro allI impI, elim conjE)
      fix k assume k: "pivot < k" "k < b1 - 1"
      have kl: "k < length xs" using k il by simp
      have kn: "k \<noteq> b1 - 1" using k by simp
      show "\<not> lt (?xs ! pivot) (?xs ! k)"
      proof (cases "k = a1")
        case True
        have "\<not> lt (xs ! pivot) (xs ! (b1 - 1))" by (rule swo_asym[OF swo ls])
        then show ?thesis using True kl pv il by (simp add: nth_swap)
      next
        case False
        have "\<not> lt (xs ! pivot) (xs ! k)" by (rule L) (use k sb in simp_all)
        then show ?thesis using False kn kl pv il by (simp add: nth_swap)
      qed
    qed
    have x3: "\<not> b1 \<le> a1" using lt1 by simp
    have p1: "pivot < a1 + 1" using 1(3) sa by simp
    have p4: "b1 - 1 \<le> length ?xs" using sb 1(5) by simp
    have r: "protect_loop lt ?xs pivot (a1 + 1) (b1 - 1) = (ys, a', b')"
      using step False 1(8) by simp
    have ih: "a1 + 1 \<le> b' \<and> b' \<le> b1 - 1 \<and> same_outside (a1 + 1) (b1 - 1) ?xs ys \<and>
      (\<forall>k. pivot < k \<and> k < b' \<longrightarrow> lt (ys ! k) (ys ! pivot)) \<and>
      (\<forall>k. b' \<le> k \<and> k < b1 - 1 \<longrightarrow> \<not> lt (ys ! k) (ys ! pivot) \<and> \<not> lt (ys ! pivot) (ys ! k))"
      by (rule 1(1)[OF b1_def a1_def x3 swo p1 lt2 p4 A' L' r])
    then have so2: "same_outside (a1 + 1) (b1 - 1) ?xs ys" by simp
    have bb: "a1 + 1 \<le> b'" "b' \<le> b1 - 1" using ih by simp_all
    have so2': "same_outside a b ?xs ys"
      by (rule same_outside_mono[OF so2]) (use sb sa in simp_all)
    have so: "same_outside a b xs ys" by (rule same_outside_trans[OF so1 so2'])
    have ypv: "ys ! pivot = xs ! pivot"
      using same_outside_nth[OF so2, of pivot] pv il p1 by simp
    have E': "\<not> lt (ys ! k) (ys ! pivot) \<and> \<not> lt (ys ! pivot) (ys ! k)" if k: "b' \<le> k" "k < b" for k
    proof (cases "k < b1 - 1")
      case True
      then show ?thesis using ih k by blast
    next
      case False
      have kl: "k < length xs" using k 1(5) by simp
      have yk: "ys ! k = ?xs ! k"
        by (rule same_outside_nth[OF so2]) (use False kl in simp_all)
      show ?thesis
      proof (cases "k = b1 - 1")
        case True
        have "\<not> lt (xs ! pivot) (xs ! a1)" by (rule L) (use sa 1(3) lt1 sb in simp_all)
        then show ?thesis using True ge ne yk ypv kl il by (simp add: nth_swap)
      next
        case nb: False
        then have kb: "b1 \<le> k" using False by simp
        then have "k \<noteq> a1" using lt1 by simp
        then show ?thesis using E1[OF kb k(2)] nb yk ypv kl il by (simp add: nth_swap)
      qed
    qed
    have "a \<le> b'" "b' \<le> b" using bb sa sb by simp_all
    then show ?thesis using so ih E' by blast
  qed
qed

lemma pstateD:
  assumes "pstate lt xs lo hi a b c"
  shows "lo < a" "a \<le> b" "b \<le> c" "c \<le> hi" "hi \<le> length xs"
    and "\<And>k. lo < k \<Longrightarrow> k < a \<Longrightarrow> lt (xs ! k) (xs ! lo)"
    and "\<And>k. lo < k \<Longrightarrow> k < b \<Longrightarrow> \<not> lt (xs ! lo) (xs ! k)"
    and "\<And>k. b \<le> k \<Longrightarrow> k < c \<Longrightarrow> \<not> lt (xs ! k) (xs ! lo)"
    and "\<And>k. b \<le> k \<Longrightarrow> k < c \<Longrightarrow> \<not> lt (xs ! lo) (xs ! k)"
    and "\<And>k. c \<le> k \<Longrightarrow> k < hi \<Longrightarrow> \<not> lt (xs ! k) (xs ! lo)"
  using assms unfolding pstate_def by blast+

lemma pstateI:
  assumes "lo < a" "a \<le> b" "b \<le> c" "c \<le> hi" "hi \<le> length xs"
    and "\<And>k. lo < k \<Longrightarrow> k < a \<Longrightarrow> lt (xs ! k) (xs ! lo)"
    and "\<And>k. lo < k \<Longrightarrow> k < b \<Longrightarrow> \<not> lt (xs ! lo) (xs ! k)"
    and "\<And>k. b \<le> k \<Longrightarrow> k < c \<Longrightarrow> \<not> lt (xs ! k) (xs ! lo)"
    and "\<And>k. b \<le> k \<Longrightarrow> k < c \<Longrightarrow> \<not> lt (xs ! lo) (xs ! k)"
    and "\<And>k. c \<le> k \<Longrightarrow> k < hi \<Longrightarrow> \<not> lt (xs ! k) (xs ! lo)"
  shows "pstate lt xs lo hi a b c"
  using assms unfolding pstate_def by blast

lemma probe1:
  assumes swo: "strict_weak_order lt" and ps: "pstate lt xs lo hi a b c" and ch: "c < hi"
    and eq: "\<not> lt (xs ! lo) (xs ! (hi - 1))"
  shows "pstate lt (swap xs c (hi - 1)) lo hi a b (c + 1)"
    and "same_outside (lo + 1) hi xs (swap xs c (hi - 1))"
proof -
  note d = pstateD[OF ps]
  let ?xs = "swap xs c (hi - 1)"
  have il: "c < length xs" "hi - 1 < length xs" "lo < length xs" using d(1-5) ch by simp_all
  have pn: "lo \<noteq> c" "lo \<noteq> hi - 1" using d(1-5) ch by simp_all
  have pv: "?xs ! lo = xs ! lo" using il pn by (simp add: nth_swap)
  have low: "?xs ! k = xs ! k" if "k < c" for k
  proof -
    have "k \<noteq> c" "k \<noteq> hi - 1" "k < length xs" using that ch il by simp_all
    then show ?thesis using il by (simp add: nth_swap)
  qed
  show "same_outside (lo + 1) hi xs ?xs"
    by (rule same_outside_swap) (use d(1-5) ch in simp_all)
  show "pstate lt ?xs lo hi a b (c + 1)"
  proof (rule pstateI)
    show "lo < a" "a \<le> b" "b \<le> c + 1" "c + 1 \<le> hi" "hi \<le> length ?xs"
      using d(1-5) ch by simp_all
  next
    fix k assume k: "lo < k" "k < a"
    then have "?xs ! k = xs ! k" using d(2,3) by (intro low) simp
    then show "lt (?xs ! k) (?xs ! lo)" using d(6)[OF k] pv by simp
  next
    fix k assume k: "lo < k" "k < b"
    then have "?xs ! k = xs ! k" using d(3) by (intro low) simp
    then show "\<not> lt (?xs ! lo) (?xs ! k)" using d(7)[OF k] pv by simp
  next
    fix k assume k: "b \<le> k" "k < c + 1"
    show "\<not> lt (?xs ! k) (?xs ! lo)"
    proof (cases "k = c")
      case True
      have "\<not> lt (xs ! (hi - 1)) (xs ! lo)" by (rule d(10)) (use ch in simp_all)
      then show ?thesis using True il pv by (simp add: nth_swap)
    next
      case False
      then have kc: "k < c" using k by simp
      then show ?thesis using d(8)[OF k(1) kc] low[OF kc] pv by simp
    qed
    show "\<not> lt (?xs ! lo) (?xs ! k)"
    proof (cases "k = c")
      case True
      then show ?thesis using eq il pv by (simp add: nth_swap)
    next
      case False
      then have kc: "k < c" using k by simp
      then show ?thesis using d(9)[OF k(1) kc] low[OF kc] pv by simp
    qed
  next
    fix k assume k: "c + 1 \<le> k" "k < hi"
    have kl: "k < length xs" using k d(5) by simp
    show "\<not> lt (?xs ! k) (?xs ! lo)"
    proof (cases "k = hi - 1")
      case True
      have "\<not> lt (xs ! c) (xs ! lo)" by (rule d(10)) (use ch in simp_all)
      then show ?thesis using True il pv by (simp add: nth_swap)
    next
      case False
      have "\<not> lt (xs ! k) (xs ! lo)" by (rule d(10)) (use k in simp_all)
      moreover have "k \<noteq> c" using k by simp
      ultimately show ?thesis using False il kl pv by (simp add: nth_swap)
    qed
  qed
qed

lemma probe2:
  assumes swo: "strict_weak_order lt" and ps: "pstate lt xs lo hi a b c" and bl: "lo + 1 < b"
    and eq: "\<not> lt (xs ! (b - 1)) (xs ! lo)"
  shows "pstate lt xs lo hi a (b - 1) c"
proof -
  note d = pstateD[OF ps]
  have ab: "a \<le> b - 1"
  proof (rule ccontr)
    assume "\<not> a \<le> b - 1"
    then have "b - 1 < a" by simp
    then have "lt (xs ! (b - 1)) (xs ! lo)" using bl by (intro d(6)) simp_all
    then show False using eq by simp
  qed
  show ?thesis
  proof (rule pstateI)
    show "lo < a" "a \<le> b - 1" "b - 1 \<le> c" "c \<le> hi" "hi \<le> length xs"
      using d(1-5) ab by simp_all
  next
    fix k assume k: "lo < k" "k < a"
    show "lt (xs ! k) (xs ! lo)" by (rule d(6)[OF k])
  next
    fix k assume k: "lo < k" "k < b - 1"
    show "\<not> lt (xs ! lo) (xs ! k)" by (rule d(7)) (use k in simp_all)
  next
    fix k assume k: "b - 1 \<le> k" "k < c"
    show "\<not> lt (xs ! k) (xs ! lo)"
    proof (cases "k = b - 1")
      case True
      then show ?thesis using eq by simp
    next
      case False
      show ?thesis by (rule d(8)) (use k False in simp_all)
    qed
    show "\<not> lt (xs ! lo) (xs ! k)"
    proof (cases "k = b - 1")
      case True
      have "\<not> lt (xs ! lo) (xs ! (b - 1))" by (rule d(7)) (use bl in simp_all)
      then show ?thesis using True by simp
    next
      case False
      show ?thesis by (rule d(9)) (use k False in simp_all)
    qed
  next
    fix k assume k: "c \<le> k" "k < hi"
    show "\<not> lt (xs ! k) (xs ! lo)" by (rule d(10)[OF k])
  qed
qed

lemma probe3:
  assumes swo: "strict_weak_order lt" and ps: "pstate lt xs lo hi a b c"
    and m: "lo < m" "m < b"
    and eq: "\<not> lt (xs ! m) (xs ! lo)"
  shows "pstate lt (swap xs m (b - 1)) lo hi a (b - 1) c"
    and "same_outside (lo + 1) hi xs (swap xs m (b - 1))"
proof -
  note d = pstateD[OF ps]
  let ?xs = "swap xs m (b - 1)"
  have am: "a \<le> m"
  proof (rule ccontr)
    assume "\<not> a \<le> m"
    then have "m < a" by simp
    then have "lt (xs ! m) (xs ! lo)" using m by (intro d(6)) simp_all
    then show False using eq by simp
  qed
  have il: "m < length xs" "b - 1 < length xs" "lo < length xs" using d(1-5) m by simp_all
  have pn: "lo \<noteq> m" "lo \<noteq> b - 1" using m by simp_all
  have pv: "?xs ! lo = xs ! lo" using il pn by (simp add: nth_swap)
  have other: "?xs ! k = xs ! k" if "k \<noteq> m" "k \<noteq> b - 1" "k < length xs" for k
    using that il by (simp add: nth_swap)
  have eqm: "\<not> lt (xs ! lo) (xs ! m)" by (rule d(7)[OF m])
  show "same_outside (lo + 1) hi xs ?xs"
    by (rule same_outside_swap) (use d(1-5) m in simp_all)
  show "pstate lt ?xs lo hi a (b - 1) c"
  proof (rule pstateI)
    show "lo < a" "a \<le> b - 1" "b - 1 \<le> c" "c \<le> hi" "hi \<le> length ?xs"
      using d(1-5) am m by simp_all
  next
    fix k assume k: "lo < k" "k < a"
    have "?xs ! k = xs ! k" by (rule other) (use k am m d(1-5) in simp_all)
    then show "lt (?xs ! k) (?xs ! lo)" using d(6)[OF k] pv by simp
  next
    fix k assume k: "lo < k" "k < b - 1"
    show "\<not> lt (?xs ! lo) (?xs ! k)"
    proof (cases "k = m")
      case True
      have "\<not> lt (xs ! lo) (xs ! (b - 1))" by (rule d(7)) (use m in simp_all)
      then show ?thesis using True il pv by (simp add: nth_swap)
    next
      case False
      have "?xs ! k = xs ! k" by (rule other) (use k False d(1-5) in simp_all)
      moreover have "\<not> lt (xs ! lo) (xs ! k)" by (rule d(7)) (use k in simp_all)
      ultimately show ?thesis using pv by simp
    qed
  next
    fix k assume k: "b - 1 \<le> k" "k < c"
    have kl: "k < length xs" using k d(1-5) by simp
    show "\<not> lt (?xs ! k) (?xs ! lo)"
    proof (cases "k = b - 1")
      case True
      then show ?thesis using eq il pv by (simp add: nth_swap)
    next
      case False
      have "?xs ! k = xs ! k" by (rule other) (use k False m kl in simp_all)
      moreover have "\<not> lt (xs ! k) (xs ! lo)" by (rule d(8)) (use k False in simp_all)
      ultimately show ?thesis using pv by simp
    qed
    show "\<not> lt (?xs ! lo) (?xs ! k)"
    proof (cases "k = b - 1")
      case True
      then show ?thesis using eqm il pv by (simp add: nth_swap)
    next
      case False
      have "?xs ! k = xs ! k" by (rule other) (use k False m kl in simp_all)
      moreover have "\<not> lt (xs ! lo) (xs ! k)" by (rule d(9)) (use k False in simp_all)
      ultimately show ?thesis using pv by simp
    qed
  next
    fix k assume k: "c \<le> k" "k < hi"
    have "?xs ! k = xs ! k" by (rule other) (use k m d(1-5) in simp_all)
    then show "\<not> lt (?xs ! k) (?xs ! lo)" using d(10)[OF k] pv by simp
  qed
qed

lemma dups_test_spec:
  assumes swo: "strict_weak_order lt" and ps: "pstate lt xs lo hi a b c" and ch: "c < hi"
    and m: "lo < m" "m + 1 < b"
    and res: "dups_test lt xs lo m hi b c = (ys, b3, c3, dups)"
  shows "pstate lt ys lo hi a b3 c3" and "same_outside (lo + 1) hi xs ys"
proof -
  define P1 where "P1 = (\<not> lt (xs ! lo) (xs ! (hi - 1)))"
  define xs1 where "xs1 = (if P1 then swap xs c (hi - 1) else xs)"
  define c1 where "c1 = (if P1 then c + 1 else c)"
  define P2 where "P2 = (\<not> lt (xs1 ! (b - 1)) (xs1 ! lo))"
  define b2 where "b2 = (if P2 then b - 1 else b)"
  define P3 where "P3 = (\<not> lt (xs1 ! m) (xs1 ! lo))"
  define xs3 where "xs3 = (if P3 then swap xs1 m (b2 - 1) else xs1)"
  define b3' where "b3' = (if P3 then b2 - 1 else b2)"
  have "dups_test lt xs lo m hi b c =
      (xs3, b3', c1, (if P1 then 1 else 0) + (if P2 then 1 else 0) + (if P3 then 1 else 0))"
    unfolding dups_test_def xs3_def b3'_def P3_def b2_def P2_def c1_def xs1_def P1_def
    by (simp add: Let_def)
  then have e: "ys = xs3" "b3 = b3'" "c3 = c1" using res by simp_all
  have s1: "pstate lt xs1 lo hi a b c1 \<and> same_outside (lo + 1) hi xs xs1"
  proof (cases P1)
    case True
    then show ?thesis
      using probe1[OF swo ps ch] by (simp add: xs1_def c1_def P1_def)
  next
    case False
    then show ?thesis using ps by (simp add: xs1_def c1_def)
  qed
  then have ps1: "pstate lt xs1 lo hi a b c1" and so1: "same_outside (lo + 1) hi xs xs1"
    by simp_all
  have ps2: "pstate lt xs1 lo hi a b2 c1"
  proof (cases P2)
    case True
    have "pstate lt xs1 lo hi a (b - 1) c1"
      by (rule probe2[OF swo ps1]) (use m True in \<open>simp_all add: P2_def\<close>)
    then show ?thesis using True by (simp add: b2_def)
  next
    case False
    then show ?thesis using ps1 by (simp add: b2_def)
  qed
  have mb2: "m < b2" using m by (auto simp: b2_def)
  have s3: "pstate lt xs3 lo hi a b3' c1 \<and> same_outside (lo + 1) hi xs1 xs3"
  proof (cases P3)
    case True
    then show ?thesis
      using probe3[OF swo ps2 m(1) mb2] by (simp add: xs3_def b3'_def P3_def)
  next
    case False
    then show ?thesis using ps2 by (simp add: xs3_def b3'_def)
  qed
  show "pstate lt ys lo hi a b3 c3" using s3 e by simp
  show "same_outside (lo + 1) hi xs ys"
    using same_outside_trans[OF so1] s3 e by simp
qed

lemma pivot_medians_spec:
  assumes swo: "strict_weak_order lt" and n: "lo + 12 < hi" and len: "hi \<le> length xs"
  shows "same_outside lo hi xs (pivot_medians lt xs lo hi)"
    and "\<not> lt (pivot_medians lt xs lo hi ! (hi - 1)) (pivot_medians lt xs lo hi ! lo)"
proof -
  define m where "m = (lo + hi) div 2"
  define s where "s = (hi - lo) div 8"
  define ys1 where "ys1 = medianOfThree_func lt xs lo (lo + s) (lo + 2 * s)"
  define ys2 where "ys2 = medianOfThree_func lt ys1 m (m - s) (m + s)"
  define ys3 where "ys3 = medianOfThree_func lt ys2 (hi - 1) (hi - 1 - s) (hi - 1 - 2 * s)"
  define xs0 where "xs0 = (if hi - lo > 40 then ys3 else xs)"
  have eq: "pivot_medians lt xs lo hi = medianOfThree_func lt xs0 lo m (hi - 1)"
    unfolding pivot_medians_def xs0_def ys3_def ys2_def ys1_def s_def m_def
    by (simp add: Let_def)
  have mb: "lo < m" "m < hi - 1" using n by (simp_all add: m_def)
  have so0: "same_outside lo hi xs xs0"
  proof (cases "hi - lo > 40")
    case False
    then show ?thesis by (simp add: xs0_def)
  next
    case True
    have sb: "lo + 2 * s < hi" "lo \<le> m - s" "m + s < hi" "lo \<le> hi - 1 - 2 * s"
      using True by (simp_all add: s_def m_def)
    have so1: "same_outside lo hi xs ys1"
      unfolding ys1_def
      by (rule medianOfThree_func_spec(1)[OF swo]) (use sb len in simp_all)
    have l1: "hi \<le> length ys1" using len same_outside_length[OF so1] by simp
    have so2: "same_outside lo hi ys1 ys2"
      unfolding ys2_def
      by (rule medianOfThree_func_spec(1)[OF swo]) (use sb l1 mb in simp_all)
    have l2: "hi \<le> length ys2" using l1 same_outside_length[OF so2] by simp
    have so3: "same_outside lo hi ys2 ys3"
      unfolding ys3_def
      by (rule medianOfThree_func_spec(1)[OF swo]) (use sb l2 mb in simp_all)
    show ?thesis
      using True same_outside_trans[OF same_outside_trans[OF so1 so2] so3]
      by (simp add: xs0_def)
  qed
  have l0: "hi \<le> length xs0" using len same_outside_length[OF so0] by simp
  have r: "lo \<le> m" "m < hi" "lo \<le> lo" "lo < hi" "lo \<le> hi - 1" "hi - 1 < hi"
    using mb n by simp_all
  have so: "same_outside lo hi xs0 (medianOfThree_func lt xs0 lo m (hi - 1))"
    by (rule medianOfThree_func_spec(1)[OF swo r l0])
  show "same_outside lo hi xs (pivot_medians lt xs lo hi)"
    unfolding eq by (rule same_outside_trans[OF so0 so])
  have d: "m \<noteq> lo" "m \<noteq> hi - 1" "lo \<noteq> hi - 1" using mb by simp_all
  show "\<not> lt (pivot_medians lt xs lo hi ! (hi - 1)) (pivot_medians lt xs lo hi ! lo)"
    unfolding eq by (rule medianOfThree_func_spec(2)[OF swo r l0 d])
qed

lemma pstate_weaken:
  assumes "pstate lt xs lo hi a b c"
  shows "pstate lt xs lo hi (lo + 1) b c"
proof -
  note d = pstateD[OF assms]
  show ?thesis
  proof (rule pstateI)
    show "lo < lo + 1" "lo + 1 \<le> b" "b \<le> c" "c \<le> hi" "hi \<le> length xs"
      using d(1-5) by simp_all
  next
    fix k assume "lo < k" "k < lo + 1"
    then have False by simp
    then show "lt (xs ! k) (xs ! lo)" ..
  qed (use d in blast)+
qed

lemma dups_phase_spec:
  assumes swo: "strict_weak_order lt" and ps: "pstate lt xs lo hi a b c"
    and bc: "b = c" and ch: "c < hi"
    and res: "dups_phase lt xs lo hi ((lo + hi) div 2) b c = (ys, b3, c3, pr)"
  shows "pstate lt ys lo hi a b3 c3" and "same_outside (lo + 1) hi xs ys"
proof -
  have "pstate lt ys lo hi a b3 c3 \<and> same_outside (lo + 1) hi xs ys"
  proof (cases "\<not> hi - c < 5 \<and> hi - c < (hi - lo) div 4")
    case False
    then have "(ys, b3, c3, pr) = (xs, b, c, hi - c < 5)"
      using res by (auto simp: dups_phase_def Let_def)
    then show ?thesis using ps by simp
  next
    case True
    obtain ys' b' c' dups where dt: "dups_test lt xs lo ((lo + hi) div 2) hi b c = (ys', b', c', dups)"
      by (cases "dups_test lt xs lo ((lo + hi) div 2) hi b c") auto
    have e: "ys = ys'" "b3 = b'" "c3 = c'"
      using res True dt by (auto simp: dups_phase_def Let_def)
    note d = pstateD[OF ps]
    have m: "lo < (lo + hi) div 2" "(lo + hi) div 2 + 1 < b"
      using True bc d(1-5) by auto
    show ?thesis
      using dups_test_spec[OF swo ps ch m dt] e by simp
  qed
  then show "pstate lt ys lo hi a b3 c3" and "same_outside (lo + 1) hi xs ys" by simp_all
qed

lemma protect_phase_spec:
  assumes swo: "strict_weak_order lt" and ps: "pstate lt xs lo hi a b c"
    and res: "protect_phase lt xs lo a b pr = (ys, b4)"
  shows "pstate lt ys lo hi (lo + 1) b4 c" and "same_outside (lo + 1) hi xs ys"
proof -
  note d = pstateD[OF ps]
  have "pstate lt ys lo hi (lo + 1) b4 c \<and> same_outside (lo + 1) hi xs ys"
  proof (cases pr)
    case False
    then have "(ys, b4) = (xs, b)" using res by (simp add: protect_phase_def)
    then show ?thesis using pstate_weaken[OF ps] by simp
  next
    case True
    obtain ys' a' b' where pl: "protect_loop lt xs lo a b = (ys', a', b')"
      by (cases "protect_loop lt xs lo a b") auto
    have e: "ys = ys'" "b4 = b'" using res True pl by (simp_all add: protect_phase_def)
    have bl: "b \<le> length xs" using d(1-5) by simp
    have A: "\<forall>k. lo < k \<and> k < a \<longrightarrow> lt (xs ! k) (xs ! lo)" using d(6) by blast
    have L: "\<forall>k. lo < k \<and> k < b \<longrightarrow> \<not> lt (xs ! lo) (xs ! k)" using d(7) by blast
    have post: "a \<le> b' \<and> b' \<le> b \<and> same_outside a b xs ys' \<and>
      (\<forall>k. lo < k \<and> k < b' \<longrightarrow> lt (ys' ! k) (ys' ! lo)) \<and>
      (\<forall>k. b' \<le> k \<and> k < b \<longrightarrow> \<not> lt (ys' ! k) (ys' ! lo) \<and> \<not> lt (ys' ! lo) (ys' ! k))"
      by (rule protect_loop_spec[OF swo d(1) d(2) bl A L pl])
    then have bb: "a \<le> b'" "b' \<le> b" and so: "same_outside a b xs ys'" by simp_all
    have S: "\<And>k. lo < k \<Longrightarrow> k < b' \<Longrightarrow> lt (ys' ! k) (ys' ! lo)" using post by blast
    have E: "\<And>k. b' \<le> k \<Longrightarrow> k < b \<Longrightarrow> \<not> lt (ys' ! k) (ys' ! lo) \<and> \<not> lt (ys' ! lo) (ys' ! k)"
      using post by blast
    have pv: "ys' ! lo = xs ! lo"
      by (rule same_outside_nth[OF so]) (use d(1-5) in simp_all)
    have out: "ys' ! k = xs ! k" if "b \<le> k" "k < hi" for k
      by (rule same_outside_nth[OF so]) (use that d(1-5) in simp_all)
    have so': "same_outside (lo + 1) hi xs ys'"
      by (rule same_outside_mono[OF so]) (use d(1-5) in simp_all)
    have "pstate lt ys' lo hi (lo + 1) b' c"
    proof (rule pstateI)
      show "lo < lo + 1" "lo + 1 \<le> b'" "b' \<le> c" "c \<le> hi" "hi \<le> length ys'"
        using d(1-5) bb same_outside_length[OF so] by simp_all
    next
      fix k assume "lo < k" "k < lo + 1"
      then have False by simp
      then show "lt (ys' ! k) (ys' ! lo)" ..
    next
      fix k assume k: "lo < k" "k < b'"
      show "\<not> lt (ys' ! lo) (ys' ! k)" by (rule swo_asym[OF swo S[OF k]])
    next
      fix k assume k: "b' \<le> k" "k < c"
      show "\<not> lt (ys' ! k) (ys' ! lo)"
      proof (cases "k < b")
        case True
        then show ?thesis using E[OF k(1)] by simp
      next
        case False
        have "\<not> lt (xs ! k) (xs ! lo)" by (rule d(8)) (use False k in simp_all)
        then show ?thesis using out[of k] False k d(4) pv by simp
      qed
      show "\<not> lt (ys' ! lo) (ys' ! k)"
      proof (cases "k < b")
        case True
        then show ?thesis using E[OF k(1)] by simp
      next
        case False
        have "\<not> lt (xs ! lo) (xs ! k)" by (rule d(9)) (use False k in simp_all)
        then show ?thesis using out[of k] False k d(4) pv by simp
      qed
    next
      fix k assume k: "c \<le> k" "k < hi"
      have "\<not> lt (xs ! k) (xs ! lo)" by (rule d(10)[OF k])
      then show "\<not> lt (ys' ! k) (ys' ! lo)" using out[of k] k d(3) pv by simp
    qed
    then show ?thesis using so' e by simp
  qed
  then show "pstate lt ys lo hi (lo + 1) b4 c" and "same_outside (lo + 1) hi xs ys" by simp_all
qed

lemma doPivot_func_spec:
  assumes swo: "strict_weak_order lt" and n: "lo + 12 < hi" and len: "hi \<le> length xs"
    and res: "doPivot_func lt xs lo hi = (ys, mlo, mhi)"
  shows "lo \<le> mlo" "mlo < mhi" "mhi \<le> hi" "same_outside lo hi xs ys"
    and "\<And>k. lo \<le> k \<Longrightarrow> k < mlo \<Longrightarrow> \<not> lt (ys ! mlo) (ys ! k)"
    and "\<And>k. mlo \<le> k \<Longrightarrow> k < mhi \<Longrightarrow> \<not> lt (ys ! k) (ys ! mlo) \<and> \<not> lt (ys ! mlo) (ys ! k)"
    and "\<And>k. mhi \<le> k \<Longrightarrow> k < hi \<Longrightarrow> \<not> lt (ys ! k) (ys ! mlo)"
proof -
  define xs1 where "xs1 = pivot_medians lt xs lo hi"
  define a where "a = scan_less lt xs1 lo (lo + 1) (hi - 1)"
  obtain xs2 b c where pl: "partition_loop lt xs1 lo a (hi - 1) = (xs2, b, c)"
    by (cases "partition_loop lt xs1 lo a (hi - 1)") auto
  obtain xs3 b3 c3 pr where dp: "dups_phase lt xs2 lo hi ((lo + hi) div 2) b c = (xs3, b3, c3, pr)"
    by (cases "dups_phase lt xs2 lo hi ((lo + hi) div 2) b c") auto
  obtain xs4 b4 where pp: "protect_phase lt xs3 lo a b3 pr = (xs4, b4)"
    by (cases "protect_phase lt xs3 lo a b3 pr") auto
  have "doPivot_func lt xs lo hi = (swap xs4 lo (b4 - 1), b4 - 1, c3)"
    unfolding doPivot_func_def Let_def xs1_def[symmetric] a_def[symmetric]
    using pl dp pp by simp
  then have e: "ys = swap xs4 lo (b4 - 1)" "mlo = b4 - 1" "mhi = c3" using res by simp_all
  have so1: "same_outside lo hi xs xs1" and G0: "\<not> lt (xs1 ! (hi - 1)) (xs1 ! lo)"
    unfolding xs1_def by (rule pivot_medians_spec[OF swo n len])+
  have l1: "hi \<le> length xs1" using len same_outside_length[OF so1] by simp
  have sa0: "lo + 1 \<le> a \<and> a \<le> hi - 1 \<and>
     (\<forall>k. lo + 1 \<le> k \<and> k < a \<longrightarrow> lt (xs1 ! k) (xs1 ! lo)) \<and>
     (a < hi - 1 \<longrightarrow> \<not> lt (xs1 ! a) (xs1 ! lo))"
    unfolding a_def by (rule scan_less_spec) (use n in simp)
  then have ab: "lo + 1 \<le> a" "a \<le> hi - 1" by simp_all
  have A1: "\<And>k. lo < k \<Longrightarrow> k < a \<Longrightarrow> lt (xs1 ! k) (xs1 ! lo)" using sa0 by simp
  have L1: "\<forall>k. lo < k \<and> k < a \<longrightarrow> \<not> lt (xs1 ! lo) (xs1 ! k)"
    using A1 swo_asym[OF swo] by blast
  have G1: "\<forall>k. hi - 1 \<le> k \<and> k < hi \<longrightarrow> \<not> lt (xs1 ! k) (xs1 ! lo)"
  proof (intro allI impI, elim conjE)
    fix k assume "hi - 1 \<le> k" "k < hi"
    then have "k = hi - 1" by simp
    then show "\<not> lt (xs1 ! k) (xs1 ! lo)" using G0 by simp
  qed
  have p1: "lo < a" using ab by simp
  have p3: "hi - 1 \<le> hi" by simp
  have post: "b = c \<and> a \<le> b \<and> b \<le> hi - 1 \<and> same_outside a (hi - 1) xs1 xs2 \<and>
     (\<forall>k. lo < k \<and> k < b \<longrightarrow> \<not> lt (xs2 ! lo) (xs2 ! k)) \<and>
     (\<forall>k. c \<le> k \<and> k < hi \<longrightarrow> \<not> lt (xs2 ! k) (xs2 ! lo))"
    by (rule partition_loop_spec[OF swo p1 ab(2) p3 l1 L1 G1 pl])
  then have bc: "b = c" "a \<le> b" "b \<le> hi - 1" and so2: "same_outside a (hi - 1) xs1 xs2"
    by simp_all
  have l2: "hi \<le> length xs2" using l1 same_outside_length[OF so2] by simp
  have same2: "xs2 ! k = xs1 ! k" if "k < a" for k
    by (rule same_outside_nth[OF so2]) (use that ab l1 in simp_all)
  have ps2: "pstate lt xs2 lo hi a b c"
  proof (rule pstateI)
    show "lo < a" "a \<le> b" "b \<le> c" "c \<le> hi" "hi \<le> length xs2"
      using p1 bc l2 by simp_all
  next
    fix k assume k: "lo < k" "k < a"
    show "lt (xs2 ! k) (xs2 ! lo)" using A1[OF k] same2[OF k(2)] same2[OF p1] by simp
  next
    fix k assume k: "b \<le> k" "k < c"
    then have False using bc by simp
    then show "\<not> lt (xs2 ! k) (xs2 ! lo)" "\<not> lt (xs2 ! lo) (xs2 ! k)" by simp_all
  qed (use post in blast)+
  have ch: "c < hi" using bc n by simp
  have ps3: "pstate lt xs3 lo hi a b3 c3" and so3: "same_outside (lo + 1) hi xs2 xs3"
    by (rule dups_phase_spec[OF swo ps2 bc(1) ch dp])+
  have ps4: "pstate lt xs4 lo hi (lo + 1) b4 c3" and so4: "same_outside (lo + 1) hi xs3 xs4"
    by (rule protect_phase_spec[OF swo ps3 pp])+
  note d = pstateD[OF ps4]
  have b4: "lo < b4" using d(2) by simp
  have il: "lo < length xs4" "b4 - 1 < length xs4" using d(1-5) by simp_all
  have nth: "ys ! k = (if k = lo then xs4 ! (b4 - 1) else if k = b4 - 1 then xs4 ! lo else xs4 ! k)"
    if "k < length xs4" for k
    unfolding e using that il by (simp add: nth_swap)
  have ym: "ys ! mlo = xs4 ! lo"
    unfolding e using il by (simp add: nth_swap)
  show "lo \<le> mlo" "mlo < mhi" "mhi \<le> hi" using e d(1-5) by simp_all
  have so12: "same_outside lo hi xs1 xs2"
    by (rule same_outside_mono[OF so2]) (use ab in simp_all)
  have so23: "same_outside lo hi xs2 xs3"
    by (rule same_outside_mono[OF so3]) simp_all
  have so34: "same_outside lo hi xs3 xs4"
    by (rule same_outside_mono[OF so4]) simp_all
  have so4y: "same_outside lo hi xs4 ys"
    unfolding e by (rule same_outside_swap) (use d(1-5) in simp_all)
  show "same_outside lo hi xs ys"
    by (rule same_outside_trans[OF same_outside_trans[OF same_outside_trans[OF
          same_outside_trans[OF so1 so12] so23] so34] so4y])
  show "\<not> lt (ys ! mlo) (ys ! k)" if k: "lo \<le> k" "k < mlo" for k
  proof -
    have kl: "k < length xs4" using k e d(1-5) by simp
    have kn: "k \<noteq> b4 - 1" using k e by simp
    show ?thesis
    proof (cases "k = lo")
      case True
      have "\<not> lt (xs4 ! lo) (xs4 ! (b4 - 1))" by (rule d(7)) (use k e True in simp_all)
      then show ?thesis using True ym nth[OF kl] by simp
    next
      case False
      have "\<not> lt (xs4 ! lo) (xs4 ! k)" by (rule d(7)) (use k e False in simp_all)
      then show ?thesis using False kn ym nth[OF kl] by simp
    qed
  qed
  show "\<not> lt (ys ! k) (ys ! mlo) \<and> \<not> lt (ys ! mlo) (ys ! k)" if k: "mlo \<le> k" "k < mhi" for k
  proof (cases "k = mlo")
    case True
    then show ?thesis using swo_irrefl[OF swo] by simp
  next
    case False
    then have kb: "b4 \<le> k" using k e by simp
    have kl: "k < length xs4" using k e d(1-5) by simp
    have kn: "k \<noteq> lo" "k \<noteq> b4 - 1" using kb b4 by simp_all
    have "\<not> lt (xs4 ! k) (xs4 ! lo)" "\<not> lt (xs4 ! lo) (xs4 ! k)"
      using d(8)[OF kb] d(9)[OF kb] k e by simp_all
    then show ?thesis using kn ym nth[OF kl] by simp
  qed
  show "\<not> lt (ys ! k) (ys ! mlo)" if k: "mhi \<le> k" "k < hi" for k
  proof -
    have kl: "k < length xs4" using k d(1-5) by simp
    have kn: "k \<noteq> lo" "k \<noteq> b4 - 1" using k e d(1-5) b4 by simp_all
    have "\<not> lt (xs4 ! k) (xs4 ! lo)" by (rule d(10)) (use k e in simp_all)
    then show ?thesis using kn ym nth[OF kl] by simp
  qed
qed

lemma range_all_preserved:
  assumes so: "same_outside a' b' xs ys" and lh: "lo \<le> hi" "hi \<le> length xs"
    and rel: "(lo \<le> a' \<and> b' \<le> hi) \<or> b' \<le> lo \<or> hi \<le> a'"
    and P: "\<forall>k. lo \<le> k \<and> k < hi \<longrightarrow> P (xs ! k)"
  shows "\<forall>k. lo \<le> k \<and> k < hi \<longrightarrow> P (ys ! k)"
proof (cases "lo \<le> a' \<and> b' \<le> hi")
  case True
  have "same_outside lo hi xs ys" by (rule same_outside_mono[OF so]) (use True in simp_all)
  then show ?thesis by (rule same_outside_range_all[OF _ lh P])
next
  case False
  then have d: "b' \<le> lo \<or> hi \<le> a'" using rel by blast
  show ?thesis
  proof (intro allI impI, elim conjE)
    fix k assume k: "lo \<le> k" "k < hi"
    have "ys ! k = xs ! k" by (rule same_outside_nth[OF so]) (use k d lh in auto)
    then show "P (ys ! k)" using P k by simp
  qed
qed

lemma sorted_range_cong:
  assumes "sorted_range lt xs a b" and "\<And>k. a \<le> k \<Longrightarrow> k < b \<Longrightarrow> ys ! k = xs ! k"
  shows "sorted_range lt ys a b"
  unfolding sorted_range_def
proof (intro allI impI, elim conjE)
  fix i j assume ij: "a \<le> i" "i < j" "j < b"
  have "ys ! i = xs ! i" "ys ! j = xs ! j" using assms(2) ij by simp_all
  moreover have "\<not> lt (xs ! j) (xs ! i)" using assms(1) ij by (simp add: sorted_range_def)
  ultimately show "\<not> lt (ys ! j) (ys ! i)" by simp
qed

lemma sorted_three:
  assumes swo: "strict_weak_order lt"
    and F1: "sorted_range lt xs a mlo" and F2: "sorted_range lt xs mhi b"
    and lowmid: "\<forall>k. a \<le> k \<and> k < mhi \<longrightarrow> \<not> lt p (xs ! k)"
    and midhigh: "\<forall>k. mlo \<le> k \<and> k < b \<longrightarrow> \<not> lt (xs ! k) p"
  shows "sorted_range lt xs a b"
  unfolding sorted_range_def
proof (intro allI impI, elim conjE)
  fix i j assume ij: "a \<le> i" "i < j" "j < b"
  show "\<not> lt (xs ! j) (xs ! i)"
  proof (cases "j < mlo")
    case True
    then show ?thesis using F1 ij by (simp add: sorted_range_def)
  next
    case jm: False
    show ?thesis
    proof (cases "mhi \<le> i")
      case True
      then show ?thesis using F2 ij by (simp add: sorted_range_def)
    next
      case False
      have x: "\<not> lt p (xs ! i)" using lowmid ij False by simp
      have y: "\<not> lt (xs ! j) p" using midhigh ij jm by simp
      show ?thesis by (rule swo_le_trans[OF swo x y])
    qed
  qed
qed

lemma quickSort_func_spec:
  "strict_weak_order lt \<Longrightarrow> b \<le> length xs \<Longrightarrow>
     sorted_range lt (quickSort_func lt xs a b d) a b \<and>
     same_outside a b xs (quickSort_func lt xs a b d)"
proof (induction d arbitrary: xs a b)
  case 0
  show ?case
  proof (cases "b - a > 12")
    case True
    then have ab: "a < b" by simp
    show ?thesis using heapSort_func_spec[OF 0(1) ab 0(2)] True by simp
  next
    case False
    then show ?thesis using small_sort_spec[OF 0(1,2)] by simp
  qed
next
  case (Suc d)
  note swo = Suc(2)
  show ?case
  proof (cases "b - a > 12")
    case False
    then show ?thesis using small_sort_spec[OF Suc(2,3)] by simp
  next
    case True
    then have n: "a + 12 < b" by simp
    obtain xs1 mlo mhi where dp: "doPivot_func lt xs a b = (xs1, mlo, mhi)"
      by (cases "doPivot_func lt xs a b") auto
    note P = doPivot_func_spec[OF swo n Suc(3) dp]
    define p where "p = xs1 ! mlo"
    have l1: "b \<le> length xs1" using Suc(3) same_outside_length[OF P(4)] by simp
    have lowmid1: "\<forall>k. a \<le> k \<and> k < mhi \<longrightarrow> \<not> lt p (xs1 ! k)"
    proof (intro allI impI, elim conjE)
      fix k assume k: "a \<le> k" "k < mhi"
      show "\<not> lt p (xs1 ! k)"
      proof (cases "k < mlo")
        case True
        then show ?thesis using P(5)[OF k(1)] by (simp add: p_def)
      next
        case False
        then show ?thesis using P(6)[of k] k by (simp add: p_def)
      qed
    qed
    have midhigh1: "\<forall>k. mlo \<le> k \<and> k < b \<longrightarrow> \<not> lt (xs1 ! k) p"
    proof (intro allI impI, elim conjE)
      fix k assume k: "mlo \<le> k" "k < b"
      show "\<not> lt (xs1 ! k) p"
      proof (cases "k < mhi")
        case True
        then show ?thesis using P(6)[OF k(1)] by (simp add: p_def)
      next
        case False
        then show ?thesis using P(7)[of k] k by (simp add: p_def)
      qed
    qed
    have amh: "a \<le> mhi" "mhi \<le> length xs1" "mlo \<le> b" "mlo \<le> length xs1"
      using P(1-3) l1 by simp_all
    show ?thesis
    proof (cases "mlo - a < b - mhi")
      case br: True
      define zs where "zs = quickSort_func lt xs1 a mlo d"
      define ws where "ws = quickSort_func lt zs mhi b d"
      have eq: "quickSort_func lt xs a b (Suc d) = ws"
        using True br dp by (simp add: ws_def zs_def)
      have z: "sorted_range lt zs a mlo \<and> same_outside a mlo xs1 zs"
        unfolding zs_def by (rule Suc.IH[OF swo amh(4)])
      then have sz: "sorted_range lt zs a mlo" and soz: "same_outside a mlo xs1 zs" by simp_all
      have lz: "length zs = length xs1" by (rule same_outside_length[OF soz])
      have w: "sorted_range lt ws mhi b \<and> same_outside mhi b zs ws"
        unfolding ws_def by (rule Suc.IH[OF swo]) (use lz l1 in simp)
      then have sw: "sorted_range lt ws mhi b" and sow: "same_outside mhi b zs ws" by simp_all
      have F1: "sorted_range lt ws a mlo"
      proof (rule sorted_range_cong[OF sz])
        fix k assume "a \<le> k" "k < mlo"
        then show "ws ! k = zs ! k"
          using P(1-3) lz l1 by (intro same_outside_nth[OF sow]) simp_all
      qed
      have lm: "\<forall>k. a \<le> k \<and> k < mhi \<longrightarrow> \<not> lt p (ws ! k)"
      proof -
        have zf: "\<forall>k. a \<le> k \<and> k < mhi \<longrightarrow> \<not> lt p (zs ! k)"
          by (rule range_all_preserved[OF soz amh(1,2) _ lowmid1]) (use P(1-3) in simp)
        show ?thesis
          by (rule range_all_preserved[OF sow amh(1) _ _ zf]) (use lz amh in simp_all)
      qed
      have mh: "\<forall>k. mlo \<le> k \<and> k < b \<longrightarrow> \<not> lt (ws ! k) p"
      proof -
        have zf: "\<forall>k. mlo \<le> k \<and> k < b \<longrightarrow> \<not> lt (zs ! k) p"
          by (rule range_all_preserved[OF soz amh(3) l1 _ midhigh1]) simp
        show ?thesis
          by (rule range_all_preserved[OF sow amh(3) _ _ zf]) (use lz l1 P(1-3) in simp_all)
      qed
      have st: "sorted_range lt ws a b" by (rule sorted_three[OF swo F1 sw lm mh])
      have so1: "same_outside a b xs1 zs"
        by (rule same_outside_mono[OF soz]) (use P(1-3) in simp_all)
      have so2: "same_outside a b zs ws"
        by (rule same_outside_mono[OF sow]) (use P(1-3) in simp_all)
      have "same_outside a b xs ws"
        by (rule same_outside_trans[OF same_outside_trans[OF P(4) so1] so2])
      then show ?thesis using st eq by simp
    next
      case br: False
      define zs where "zs = quickSort_func lt xs1 mhi b d"
      define ws where "ws = quickSort_func lt zs a mlo d"
      have eq: "quickSort_func lt xs a b (Suc d) = ws"
        using True br dp by (simp add: ws_def zs_def)
      have z: "sorted_range lt zs mhi b \<and> same_outside mhi b xs1 zs"
        unfolding zs_def by (rule Suc.IH[OF swo l1])
      then have sz: "sorted_range lt zs mhi b" and soz: "same_outside mhi b xs1 zs" by simp_all
      have lz: "length zs = length xs1" by (rule same_outside_length[OF soz])
      have w: "sorted_range lt ws a mlo \<and> same_outside a mlo zs ws"
        unfolding ws_def by (rule Suc.IH[OF swo]) (use lz amh in simp)
      then have sw: "sorted_range lt ws a mlo" and sow: "same_outside a mlo zs ws" by simp_all
      have F2: "sorted_range lt ws mhi b"
      proof (rule sorted_range_cong[OF sz])
        fix k assume "mhi \<le> k" "k < b"
        then show "ws ! k = zs ! k"
          using P(1-3) lz l1 by (intro same_outside_nth[OF sow]) simp_all
      qed
      have lm: "\<forall>k. a \<le> k \<and> k < mhi \<longrightarrow> \<not> lt p (ws ! k)"
      proof -
        have zf: "\<forall>k. a \<le> k \<and> k < mhi \<longrightarrow> \<not> lt p (zs ! k)"
          by (rule range_all_preserved[OF soz amh(1,2) _ lowmid1]) simp
        show ?thesis
          by (rule range_all_preserved[OF sow amh(1) _ _ zf]) (use lz amh P(1-3) in simp_all)
      qed
      have mh: "\<forall>k. mlo \<le> k \<and> k < b \<longrightarrow> \<not> lt (ws ! k) p"
      proof -
        have zf: "\<forall>k. mlo \<le> k \<and> k < b \<longrightarrow> \<not> lt (zs ! k) p"
          by (rule range_all_preserved[OF soz amh(3) l1 _ midhigh1]) (use P(1-3) in simp)
        show ?thesis
          by (rule range_all_preserved[OF sow amh(3) _ _ zf]) (use lz l1 in simp_all)
      qed
      have st: "sorted_range lt ws a b" by (rule sorted_three[OF swo sw F2 lm mh])
      have so1: "same_outside a b xs1 zs"
        by (rule same_outside_mono[OF soz]) (use P(1-3) in simp_all)
      have so2: "same_outside a b zs ws"
        by (rule same_outside_mono[OF sow]) (use P(1-3) in simp_all)
      have "same_outside a b xs ws"
        by (rule same_outside_trans[OF same_outside_trans[OF P(4) so1] so2])
      then show ?thesis using st eq by simp
    qed
  qed
qed

lemma sort_Slice_spec:
  assumes "strict_weak_order lt"
  shows "sorted_wrt (\<lambda>x y. \<not> lt y x) (sort_Slice lt xs)" and "mset (sort_Slice lt xs) = mset xs"
    and "length (sort_Slice lt xs) = length xs"
proof -
  have q: "sorted_range lt (sort_Slice lt xs) 0 (length xs) \<and>
      same_outside 0 (length xs) xs (sort_Slice lt xs)"
    unfolding sort_Slice_def Let_def by (rule quickSort_func_spec[OF assms]) simp
  then show len: "length (sort_Slice lt xs) = length xs" and "mset (sort_Slice lt xs) = mset xs"
    by (simp_all add: same_outside_def)
  show "sorted_wrt (\<lambda>x y. \<not> lt y x) (sort_Slice lt xs)"
    using q len by (simp add: sorted_wrt_iff_nth_less sorted_range_def)
qed

end
